theory Spec2Isabelle
  imports
    Complex_Main
    "HOL-Library.Multiset"
    "HOL-Library.Char_ord"
    "HOL-Library.List_Lexorder"
    "HOL-Library.Sublist"
    "HOL-Library.AList"
begin

section \<open>Python values used by the evaluation scripts\<close>

text \<open>
  The scripts under \<^verbatim>\<open>evals/\<close> are Python. Strings are modelled as \<^typ>\<open>string\<close>;
  a \<^typ>\<open>char\<close> stands for a code point below 256, compared by its code as Python
  compares strings (\<^verbatim>\<open>Char_ord\<close>, and lists lexicographically). Exceptions are
  values of \<open>exn\<close>, and a computation that may raise returns \<open>exn + 'a\<close>.
\<close>

datatype exn =
    ValueError
  | KeyError string
  | TypeError
  | IndexError
  | ZeroDivisionError
  | OverflowError
  | AttributeError
  | SystemError
  | SystemExit int
  | ProviderError string

text \<open>
  \<^verbatim>\<open>str.isspace\<close> on the code points below 256: TAB..CR, FS..US, SPACE, NEL and NBSP.
\<close>

definition is_space :: "char \<Rightarrow> bool" where
  "is_space c = (of_char c \<in> set [9, 10, 11, 12, 13, 28, 29, 30, 31, 32, 133, 160 :: nat])"

text \<open>\<^verbatim>\<open>s.strip()\<close>: drop the whitespace at both ends.\<close>

definition strip :: "string \<Rightarrow> string" where
  "strip s = rev (dropWhile is_space (rev (dropWhile is_space s)))"

text \<open>
  \<^verbatim>\<open>s.split(sep)\<close> scans from the left and cuts at every occurrence of \<open>sep\<close> that
  does not overlap the one before; \<open>acc\<close> holds the current piece, reversed. An empty
  separator raises \<^verbatim>\<open>ValueError\<close>.
\<close>

function split_from :: "string \<Rightarrow> string \<Rightarrow> string \<Rightarrow> string list" where
  "split_from sep acc [] = [rev acc]"
| "split_from sep acc (c # cs) =
     (if sep \<noteq> [] \<and> prefix sep (c # cs)
      then rev acc # split_from sep [] (drop (length sep) (c # cs))
      else split_from sep (c # acc) cs)"
  by pat_completeness auto
termination
  by (relation "measure (\<lambda>(sep, acc, s). length s)") (auto simp: neq_Nil_conv)

definition split :: "string \<Rightarrow> string \<Rightarrow> exn + string list" where
  "split s sep = (if sep = [] then Inl ValueError else Inr (split_from sep [] s))"

text \<open>\<^verbatim>\<open>sep.join(xs)\<close>.\<close>

fun join :: "string \<Rightarrow> string list \<Rightarrow> string" where
  "join sep [] = []"
| "join sep [x] = x"
| "join sep (x # y # ys) = x @ sep @ join sep (y # ys)"


section \<open>The matcher: \<^verbatim>\<open>tools_match\<close> (run\_evaluation.py)\<close>

text \<open>
  \<^verbatim>\<open>
  def tools_match(expected: dict, output: list[str]) -> bool:
      tool_calls = expected.get('tool_calls', '')
      expected_tools = tool_calls.split(', ') if tool_calls else []
      expected_tools = [tool.strip() for tool in expected_tools if tool.strip()]
      return sorted(expected_tools) == sorted(output)
  \<close>
  The record \<open>expected\<close> is a dictionary from keys to strings. The first two
  statements are \<open>tool_call_entries\<close>, the third is \<open>expected_tools_of\<close>.
\<close>

definition tool_call_entries :: "(string \<rightharpoonup> string) \<Rightarrow> exn + string list" where
  "tool_call_entries expected =
     (let tool_calls = (case expected ''tool_calls'' of None \<Rightarrow> [] | Some s \<Rightarrow> s)
      in if tool_calls \<noteq> [] then split tool_calls '', '' else Inr [])"

definition expected_tools_of :: "(string \<rightharpoonup> string) \<Rightarrow> exn + string list" where
  "expected_tools_of expected =
     (case tool_call_entries expected of
        Inl e \<Rightarrow> Inl e
      | Inr expected_tools \<Rightarrow> Inr [strip tool. tool \<leftarrow> expected_tools, strip tool \<noteq> []])"

definition tools_match :: "(string \<rightharpoonup> string) \<Rightarrow> string list \<Rightarrow> exn + bool" where
  "tools_match expected output =
     (case expected_tools_of expected of
        Inl e \<Rightarrow> Inl e
      | Inr expected_tools \<Rightarrow> Inr (sort expected_tools = sort output))"


section \<open>Dataset creation (create\_dataset.py)\<close>

text \<open>
  One row per test case; the expected tools are joined with \<^verbatim>\<open>', '\<close>:
  \<^verbatim>\<open>
  dataset_rows.append({
      'question': test_case['question'],
      'tool_calls': ', '.join(test_case['expected_tools']),
      'category': test_case['category'],
  })
  \<close>
  The dataset is uploaded with \<^verbatim>\<open>output_keys=['tool_calls']\<close>, so the expected
  record of an example is the dictionary with the one key \<^verbatim>\<open>tool_calls\<close>.
\<close>

record test_case =
  tc_question :: string
  tc_expected_tools :: "string list"
  tc_category :: string

record dataset_row =
  row_question :: string
  row_tool_calls :: string
  row_category :: string

definition dataset_row_of :: "test_case \<Rightarrow> dataset_row" where
  "dataset_row_of tc =
     \<lparr>row_question = tc_question tc,
      row_tool_calls = join '', '' (tc_expected_tools tc),
      row_category = tc_category tc\<rparr>"

definition expected_of_row :: "dataset_row \<Rightarrow> (string \<rightharpoonup> string)" where
  "expected_of_row row = [''tool_calls'' \<mapsto> row_tool_calls row]"


section \<open>Tool catalogs as JSON values\<close>

text \<open>
  What \<^verbatim>\<open>json.load\<close> returns and what is sent to a provider. A dictionary keeps
  the order in which its keys were inserted; floats are modelled by their exact
  rational values.
\<close>

datatype json =
    JNull
  | JBool bool
  | JInt int
  | JFloat rat
  | JStr string
  | JList "json list"
  | JDict "(string \<times> json) list"

definition bind_exn :: "exn + 'a \<Rightarrow> ('a \<Rightarrow> exn + 'b) \<Rightarrow> exn + 'b" where
  "bind_exn m f = (case m of Inl e \<Rightarrow> Inl e | Inr x \<Rightarrow> f x)"

text \<open>Evaluate \<open>f\<close> on the elements from left to right; stop at the first that raises.\<close>

fun map_exn :: "('a \<Rightarrow> exn + 'b) \<Rightarrow> 'a list \<Rightarrow> exn + 'b list" where
  "map_exn f [] = Inr []"
| "map_exn f (x # xs) =
     bind_exn (f x) (\<lambda>y. bind_exn (map_exn f xs) (\<lambda>ys. Inr (y # ys)))"

text \<open>
  \<^verbatim>\<open>for x in v\<close>: a list gives its elements, a dictionary its keys, a string its
  characters; nothing else can be iterated. \<^verbatim>\<open>v[key]\<close> with a string key is
  defined on dictionaries only. \<^verbatim>\<open>len(v)\<close>.
\<close>

definition json_iter :: "json \<Rightarrow> exn + json list" where
  "json_iter v =
     (case v of
        JList xs \<Rightarrow> Inr xs
      | JDict kvs \<Rightarrow> Inr (map (\<lambda>kv. JStr (fst kv)) kvs)
      | JStr s \<Rightarrow> Inr (map (\<lambda>c. JStr [c]) s)
      | _ \<Rightarrow> Inl TypeError)"

definition json_subscript :: "json \<Rightarrow> string \<Rightarrow> exn + json" where
  "json_subscript v key =
     (case v of
        JDict kvs \<Rightarrow> (case map_of kvs key of None \<Rightarrow> Inl (KeyError key) | Some x \<Rightarrow> Inr x)
      | _ \<Rightarrow> Inl TypeError)"

definition json_len :: "json \<Rightarrow> exn + nat" where
  "json_len v =
     (case v of
        JList xs \<Rightarrow> Inr (length xs)
      | JDict kvs \<Rightarrow> Inr (length kvs)
      | JStr s \<Rightarrow> Inr (length s)
      | _ \<Rightarrow> Inl TypeError)"

text \<open>
  \<^verbatim>\<open>d.pop(key)\<close> and \<^verbatim>\<open>d[key] = v\<close> on the items of a dictionary: an
  assignment to a key that is there keeps its place, a new key goes to the end.
  \<^verbatim>\<open>pop\<close> on a list with a string argument is a \<^verbatim>\<open>TypeError\<close>, and the other
  values have no such attribute.
\<close>

definition json_pop :: "json \<Rightarrow> string \<Rightarrow> exn + (json \<times> json)" where
  "json_pop v key =
     (case v of
        JDict kvs \<Rightarrow>
          (case map_of kvs key of
             None \<Rightarrow> Inl (KeyError key)
           | Some x \<Rightarrow> Inr (x, JDict (AList.delete key kvs)))
      | JList xs \<Rightarrow> Inl TypeError
      | _ \<Rightarrow> Inl AttributeError)"

definition json_setitem :: "json \<Rightarrow> string \<Rightarrow> json \<Rightarrow> exn + json" where
  "json_setitem v key x =
     (case v of
        JDict kvs \<Rightarrow> Inr (JDict (AList.update key x kvs))
      | _ \<Rightarrow> Inl TypeError)"


section \<open>The schema transforms, on values (run\_evaluation.py)\<close>

text \<open>
  \<^verbatim>\<open>
  def transform_tools_to_openai_format(tools):
      return [
          {
              "type": "function",
              "function": {
                  "name": tool["name"],
                  "description": tool["description"],
                  "parameters": tool["inputSchema"],
              },
          }
          for tool in tools
      ]

  def transform_tools_to_antrophic_format(tools):
      t = deepcopy(tools)
      for tool_ in t:
          tool_["input_schema"] = tool_.pop("inputSchema")
      return t
  \<close>
  This section gives the value each function returns, as the provider receives it. The
  objects behind the values, and who shares them, are the subject of the store model
  further down.
\<close>

definition openai_tool :: "json \<Rightarrow> exn + json" where
  "openai_tool tool =
     bind_exn (json_subscript tool ''name'') (\<lambda>name.
     bind_exn (json_subscript tool ''description'') (\<lambda>description.
     bind_exn (json_subscript tool ''inputSchema'') (\<lambda>parameters.
       Inr (JDict [(''type'', JStr ''function''),
                   (''function'', JDict [(''name'', name),
                                         (''description'', description),
                                         (''parameters'', parameters)])]))))"

definition transform_tools_to_openai_format_value :: "json \<Rightarrow> exn + json" where
  "transform_tools_to_openai_format_value tools =
     bind_exn (json_iter tools) (\<lambda>ts.
     bind_exn (map_exn openai_tool ts) (\<lambda>rs. Inr (JList rs)))"

definition antrophic_tool :: "json \<Rightarrow> exn + json" where
  "antrophic_tool tool' =
     bind_exn (json_pop tool' ''inputSchema'') (\<lambda>(schema, rest).
       json_setitem rest ''input_schema'' schema)"

text \<open>
  The loop runs over the copy. A copy that is a list is returned with every element
  rewritten; a copy that is an empty dictionary or an empty string is returned as it
  is; over the keys of a dictionary or the characters of a string the first
  \<^verbatim>\<open>pop\<close> raises.
\<close>

definition transform_tools_to_antrophic_format_value :: "json \<Rightarrow> exn + json" where
  "transform_tools_to_antrophic_format_value tools =
     (case tools of
        JList ts \<Rightarrow> bind_exn (map_exn antrophic_tool ts) (\<lambda>rs. Inr (JList rs))
      | _ \<Rightarrow> bind_exn (json_iter tools) (\<lambda>ts.
               bind_exn (map_exn antrophic_tool ts) (\<lambda>rs. Inr tools)))"


section \<open>Provider tasks (run\_evaluation.py)\<close>

text \<open>
  An example of the dataset carries the input dictionary (with the question) and the
  expected dictionary (with \<^verbatim>\<open>tool_calls\<close>). The provider clients are not part of
  the repository: a call is a function of the request and of the state \<open>'w\<close> of the
  world outside, and returns a response or raises.
\<close>

record example =
  ex_input :: "string \<rightharpoonup> string"
  ex_expected :: "string \<rightharpoonup> string"

datatype chat_message = ChatMessage (msg_role: string) (msg_content: "string option")

datatype openai_request =
  OpenAIRequest (oa_model: string) (oa_messages: "chat_message list") (oa_tools: json)

datatype tool_call = ToolCall (call_id: string) (function_name: string) (function_arguments: string)

datatype completion_message =
  CompletionMessage (cm_content: "string option") (cm_tool_calls: "tool_call list option")

text \<open>\<open>choices\<close> holds the message of each choice of the completion.\<close>

datatype openai_response = OpenAIResponse (choices: "completion_message list")

datatype anthropic_request =
  AnthropicRequest (an_timeout: nat) (an_model: string) (an_system: string)
    (an_messages: "chat_message list") (an_tools: json) (an_max_tokens: nat)

text \<open>The content blocks of a message of the Anthropic client, each with its type tag.\<close>

datatype content_block =
    TextBlock string
  | ToolUseBlock (tool_use_id: string) (tool_use_name: string) (tool_use_input: json)
  | ThinkingBlock string
  | RedactedThinkingBlock string
  | ServerToolUseBlock string string json
  | WebSearchToolResultBlock string

fun content_type :: "content_block \<Rightarrow> string" where
  "content_type (TextBlock _) = ''text''"
| "content_type (ToolUseBlock _ _ _) = ''tool_use''"
| "content_type (ThinkingBlock _) = ''thinking''"
| "content_type (RedactedThinkingBlock _) = ''redacted_thinking''"
| "content_type (ServerToolUseBlock _ _ _) = ''server_tool_use''"
| "content_type (WebSearchToolResultBlock _) = ''web_search_tool_result''"

fun content_name :: "content_block \<Rightarrow> exn + string" where
  "content_name (ToolUseBlock _ name _) = Inr name"
| "content_name (ServerToolUseBlock _ name _) = Inr name"
| "content_name _ = Inl AttributeError"

datatype anthropic_response = AnthropicResponse (response_content: "content_block list")

type_synonym 'w task = "example \<Rightarrow> 'w \<Rightarrow> (exn + string list) \<times> 'w"

type_synonym evaluator = "(string \<rightharpoonup> string) \<Rightarrow> string list \<Rightarrow> exn + bool"

text \<open>
  \<^verbatim>\<open>
  tool_calls = []
  print(example.input.get('question'), response.choices[0].message)
  if response.choices[0].message.tool_calls:
      tool_calls.append(response.choices[0].message.tool_calls[0].function.name)
  return tool_calls
  \<close>
\<close>

definition openai_tool_calls :: "openai_response \<Rightarrow> exn + string list" where
  "openai_tool_calls response =
     (case choices response of
        [] \<Rightarrow> Inl IndexError
      | message # _ \<Rightarrow>
          (case cm_tool_calls message of
             None \<Rightarrow> Inr []
           | Some [] \<Rightarrow> Inr []
           | Some (call # _) \<Rightarrow> Inr [function_name call]))"

definition openai_request_of :: "string \<Rightarrow> string \<Rightarrow> json \<Rightarrow> example \<Rightarrow> openai_request" where
  "openai_request_of system_prompt model_name tools_arg example =
     OpenAIRequest model_name
       [ChatMessage ''system'' (Some system_prompt),
        ChatMessage ''user'' (ex_input example ''question'')]
       tools_arg"

definition create_openai_task ::
  "(openai_request \<Rightarrow> 'w \<Rightarrow> (exn + openai_response) \<times> 'w) \<Rightarrow> string \<Rightarrow>
   string \<Rightarrow> json \<Rightarrow> 'w task" where
  "create_openai_task create system_prompt model_name tools example w =
     (case transform_tools_to_openai_format_value tools of
        Inl e \<Rightarrow> (Inl e, w)
      | Inr tools_arg \<Rightarrow>
          (case create (openai_request_of system_prompt model_name tools_arg example) w of
             (Inl e, w') \<Rightarrow> (Inl e, w')
           | (Inr response, w') \<Rightarrow> (openai_tool_calls response, w')))"

text \<open>
  \<^verbatim>\<open>
  tool_calls = []
  for content in response.content:
      if content.type == 'tool_use':
          tool_calls.append(content.name)
  return tool_calls
  \<close>
\<close>

fun anthropic_tool_calls :: "content_block list \<Rightarrow> string list \<Rightarrow> exn + string list" where
  "anthropic_tool_calls [] tool_calls = Inr tool_calls"
| "anthropic_tool_calls (content # rest) tool_calls =
     (if content_type content = ''tool_use''
      then bind_exn (content_name content)
             (\<lambda>name. anthropic_tool_calls rest (tool_calls @ [name]))
      else anthropic_tool_calls rest tool_calls)"

definition anthropic_request_of ::
  "string \<Rightarrow> string \<Rightarrow> json \<Rightarrow> example \<Rightarrow> anthropic_request" where
  "anthropic_request_of system_prompt model_name tools_arg example =
     AnthropicRequest 10 model_name system_prompt
       [ChatMessage ''user'' (ex_input example ''question'')]
       tools_arg 2048"

definition create_anthropic_task ::
  "(anthropic_request \<Rightarrow> 'w \<Rightarrow> (exn + anthropic_response) \<times> 'w) \<Rightarrow> string \<Rightarrow>
   string \<Rightarrow> json \<Rightarrow> 'w task" where
  "create_anthropic_task create system_prompt model_name tools example w =
     (case transform_tools_to_antrophic_format_value tools of
        Inl e \<Rightarrow> (Inl e, w)
      | Inr tools_arg \<Rightarrow>
          (case create (anthropic_request_of system_prompt model_name tools_arg example) w of
             (Inl e, w') \<Rightarrow> (Inl e, w')
           | (Inr response, w') \<Rightarrow> (anthropic_tool_calls (response_content response) [], w')))"


section \<open>The experiment runner: \<^verbatim>\<open>main\<close> (run\_evaluation.py)\<close>

text \<open>
  \<^verbatim>\<open>config.py\<close>, the tools file, the Phoenix client and \<^verbatim>\<open>run_experiment\<close> are
  outside the sources; they are the fields of \<open>env\<close>. \<open>tools_file\<close> is \<open>None\<close> when
  \<^verbatim>\<open>tools.json\<close> does not exist, and otherwise what opening and parsing it gives.
  An experiment is what \<^verbatim>\<open>run_experiment\<close> returns: its id and what
  \<^verbatim>\<open>get_evaluations()\<close> gives, which is an exception, \<^verbatim>\<open>None\<close> (the source
  tests for it) or the table of the evaluations. The table is a data frame of pandas: the
  names of its columns and its rows, one per evaluation. Which columns it has is decided
  by the library, which leaves out a column that holds no value counting as true in any
  row; so a column that the source selects can be absent. A row gives the cell of the
  column \<^verbatim>\<open>score\<close> when the table has that column: a float, or NaN, which is
  \<open>None\<close> here.

  A result of the loop is a dictionary with the keys of \<open>model_result\<close>; the entry of
  an unknown model stores the name under \<^verbatim>\<open>model_name\<close> and has no
  \<^verbatim>\<open>experiment_id\<close>. A float is the rational number that the double stands for;
  the doubles that occur are finite. Printing is not modelled, apart from the exceptions
  of the expressions that are printed. Constructing a client object is taken not to
  raise.
\<close>

record evaluation =
  ev_score :: "rat option"
  ev_label :: string

record dataframe =
  df_columns :: "string list"
  df_rows :: "evaluation list"

record ran_experiment =
  exp_id :: string
  get_evaluations :: "exn + dataframe option"

record dataset =
  ds_id :: string
  ds_examples :: "example list"

record model_result =
  r_model :: string
  r_accuracy :: rat
  r_correct :: nat
  r_total :: nat
  r_experiment_id :: "string option"
  r_error :: "string option"

record 'w env =
  MODELS_TO_EVALUATE :: "string list"
  SYSTEM_PROMPT :: string
  DATASET_NAME :: string
  PASS_THRESHOLD :: rat
  validate_env_vars :: bool
  tools_file :: "(exn + json) option"
  get_dataset :: "string \<Rightarrow> 'w \<Rightarrow> (exn + dataset) \<times> 'w"
  run_experiment ::
    "dataset \<Rightarrow> 'w task \<Rightarrow> evaluator \<Rightarrow> string \<Rightarrow> string \<Rightarrow> 'w \<Rightarrow> (exn + ran_experiment) \<times> 'w"
  openai_create :: "openai_request \<Rightarrow> 'w \<Rightarrow> (exn + openai_response) \<times> 'w"
  anthropic_create :: "anthropic_request \<Rightarrow> 'w \<Rightarrow> (exn + anthropic_response) \<times> 'w"

text \<open>\<^verbatim>\<open>load_tools\<close>: a missing file ends the process with status 1.\<close>

definition load_tools :: "'w env \<Rightarrow> exn + json" where
  "load_tools env =
     (case tools_file env of
        None \<Rightarrow> Inl (SystemExit 1)
      | Some loaded \<Rightarrow> loaded)"

text \<open>
  \<^verbatim>\<open>a / b\<close> on integers that are not negative. Python returns the double
  nearest to the exact quotient, the one with the even significand when two are equally
  near; it raises \<^verbatim>\<open>ZeroDivisionError\<close> for the divisor 0 and
  \<^verbatim>\<open>OverflowError\<close> when that double would be \<^verbatim>\<open>2 ** 1024\<close> or more.

  \<open>bit_length\<close> is \<^verbatim>\<open>int.bit_length\<close>. \<open>scaled a b k\<close> is the fraction
  \<^verbatim>\<open>a / b * 2 ** k\<close> as a numerator and a denominator, \<open>round_half_even\<close>
  rounds a fraction to the nearest integer, and \<open>float_exponent a b\<close> is the \<open>e\<close>
  with \<^verbatim>\<open>2 ** e <= a / b < 2 ** (e + 1)\<close>. A double has 53 significant bits, and
  the last of them stands for \<^verbatim>\<open>2 ** -1074\<close> at least.
\<close>

fun bit_length :: "nat \<Rightarrow> nat" where
  "bit_length n = (if n = 0 then 0 else Suc (bit_length (n div 2)))"

declare bit_length.simps [simp del]

definition scaled :: "nat \<Rightarrow> nat \<Rightarrow> int \<Rightarrow> nat \<times> nat" where
  "scaled a b k = (if k \<ge> 0 then (a * 2 ^ nat k, b) else (a, b * 2 ^ nat (- k)))"

definition round_half_even :: "nat \<times> nat \<Rightarrow> nat" where
  "round_half_even x =
     (case x of (n, d) \<Rightarrow>
        (let q = n div d; r = n mod d
         in if 2 * r < d then q else if 2 * r > d then q + 1
            else if even q then q else q + 1))"

definition float_exponent :: "nat \<Rightarrow> nat \<Rightarrow> int" where
  "float_exponent a b =
     (let d = int (bit_length a) - int (bit_length b)
      in case scaled a b (- d) of (n, m) \<Rightarrow> if m \<le> n then d else d - 1)"

definition truediv :: "nat \<Rightarrow> nat \<Rightarrow> exn + rat" where
  "truediv a b =
     (if b = 0 then Inl ZeroDivisionError
      else if a = 0 then Inr 0
      else
        (let e = max (float_exponent a b) (- 1022);
             r = of_nat (round_half_even (scaled a b (52 - e))) * 2 powi (e - 52)
         in if r \<ge> 2 powi 1024 then Inl OverflowError else Inr r))"

text \<open>
  \<^verbatim>\<open>evaluations_df[evaluations_df['score'] > 0.5]\<close>: the rows whose score is above
  0.5, which NaN is not. Taking a column that the table does not have raises
  \<^verbatim>\<open>KeyError\<close>.
\<close>

definition score_above_half :: "evaluation \<Rightarrow> bool" where
  "score_above_half ev = (case ev_score ev of None \<Rightarrow> False | Some s \<Rightarrow> s > 1 / 2)"

definition df_score_above_half :: "dataframe \<Rightarrow> exn + dataframe" where
  "df_score_above_half df =
     (if ''score'' \<in> set (df_columns df)
      then Inr (df\<lparr>df_rows := filter score_above_half (df_rows df)\<rparr>)
      else Inl (KeyError ''score''))"

text \<open>
  \<^verbatim>\<open>
  total_cases = len(evaluations_df)
  correct_cases = len(evaluations_df[evaluations_df['score'] > 0.5])
  accuracy = correct_cases / total_cases if total_cases > 0 else 0
  \<close>
  The result is (accuracy, correct\_cases, total\_cases). \<^verbatim>\<open>len(None)\<close> raises
  \<^verbatim>\<open>TypeError\<close>.
\<close>

definition aggregate :: "dataframe option \<Rightarrow> exn + (rat \<times> nat \<times> nat)" where
  "aggregate evaluations_df =
     (case evaluations_df of
        None \<Rightarrow> Inl TypeError
      | Some df \<Rightarrow>
          (let total_cases = length (df_rows df)
           in bind_exn (df_score_above_half df)
                (\<lambda>selected.
                   let correct_cases = length (df_rows selected)
                   in bind_exn
                        (if total_cases > 0 then truediv correct_cases total_cases else Inr 0)
                        (\<lambda>accuracy. Inr (accuracy, correct_cases, total_cases)))))"

text \<open>
  \<^verbatim>\<open>
  if evaluations_df is not None and len(evaluations_df) > 0:
      print(f'Sample evaluation results:')
      print(evaluations_df[['score', 'label', 'output', 'expected']].to_string())
  \<close>
  Selecting a list of columns raises \<^verbatim>\<open>KeyError\<close> when the table lacks one of
  them; the exception carries here the names of the columns that are missing.
\<close>

definition df_select :: "dataframe \<Rightarrow> string list \<Rightarrow> exn + dataframe" where
  "df_select df keys =
     (case filter (\<lambda>key. key \<notin> set (df_columns df)) keys of
        [] \<Rightarrow> Inr (df\<lparr>df_columns := keys\<rparr>)
      | key # missing \<Rightarrow> Inl (KeyError (join '', '' (key # missing))))"

definition print_sample :: "dataframe option \<Rightarrow> exn + unit" where
  "print_sample evaluations_df =
     (case evaluations_df of
        None \<Rightarrow> Inr ()
      | Some df \<Rightarrow>
          if length (df_rows df) > 0
          then bind_exn (df_select df [''score'', ''label'', ''output'', ''expected''])
                 (\<lambda>sample. Inr ())
          else Inr ())"

definition unknown_model_result :: "string \<Rightarrow> model_result" where
  "unknown_model_result model_name =
     \<lparr>r_model = model_name, r_accuracy = 0, r_correct = 0, r_total = 0,
      r_experiment_id = None, r_error = Some ''Unknown model type''\<rparr>"

text \<open>
  The part of the loop body after the task has been chosen. The \<^verbatim>\<open>try\<close> around it
  is commented out in the source, so an exception of \<^verbatim>\<open>run_experiment\<close>, of
  \<^verbatim>\<open>get_evaluations\<close>, of the aggregation or of the printed sample leaves
  \<^verbatim>\<open>main\<close>, and no result is stored for the model.
\<close>

definition run_model ::
  "'w env \<Rightarrow> dataset \<Rightarrow> string \<Rightarrow> 'w task \<Rightarrow> 'w \<Rightarrow> (exn + model_result) \<times> 'w" where
  "run_model env dataset model_name task_fnc w =
     (case run_experiment env dataset task_fnc tools_match
             (''MCP tool calling eval '' @ model_name)
             (''Evaluation of '' @ model_name @ '' on MCP tool calling'') w of
        (Inl e, w') \<Rightarrow> (Inl e, w')
      | (Inr experiment, w') \<Rightarrow>
          (bind_exn (get_evaluations experiment)
             (\<lambda>evaluations_df.
                bind_exn (aggregate evaluations_df)
                  (\<lambda>(accuracy, correct_cases, total_cases).
                     bind_exn (print_sample evaluations_df)
                       (\<lambda>printed.
                          Inr \<lparr>r_model = model_name, r_accuracy = accuracy,
                               r_correct = correct_cases, r_total = total_cases,
                               r_experiment_id = Some (exp_id experiment),
                               r_error = None\<rparr>))),
           w'))"

text \<open>One pass of \<^verbatim>\<open>for model_name in MODELS_TO_EVALUATE\<close>: the entry it appends.\<close>

definition evaluate_model ::
  "'w env \<Rightarrow> json \<Rightarrow> dataset \<Rightarrow> string \<Rightarrow> 'w \<Rightarrow> (exn + model_result) \<times> 'w" where
  "evaluate_model env tools dataset model_name w =
     (if prefix ''gpt'' model_name
      then run_model env dataset model_name
             (create_openai_task (openai_create env) (SYSTEM_PROMPT env) model_name tools) w
      else if prefix ''claude'' model_name
      then run_model env dataset model_name
             (create_anthropic_task (anthropic_create env) (SYSTEM_PROMPT env) model_name tools) w
      else (Inr (unknown_model_result model_name), w))"

fun evaluate_models ::
  "'w env \<Rightarrow> json \<Rightarrow> dataset \<Rightarrow> string list \<Rightarrow> model_result list \<Rightarrow> 'w \<Rightarrow>
   (exn + model_result list) \<times> 'w" where
  "evaluate_models env tools dataset [] results w = (Inr results, w)"
| "evaluate_models env tools dataset (model_name # rest) results w =
     (case evaluate_model env tools dataset model_name w of
        (Inl e, w') \<Rightarrow> (Inl e, w')
      | (Inr r, w') \<Rightarrow> evaluate_models env tools dataset rest (results @ [r]) w')"

text \<open>
  \<^verbatim>\<open>
  all_passed = all(r.get('accuracy', 0) >= PASS_THRESHOLD
                   for r in results if r.get('error') is None)
  \<close>
\<close>

definition all_passed :: "model_result list \<Rightarrow> rat \<Rightarrow> bool" where
  "all_passed results pass_threshold =
     list_all (\<lambda>r. r_accuracy r \<ge> pass_threshold) (filter (\<lambda>r. r_error r = None) results)"

text \<open>
  \<^verbatim>\<open>except Exception\<close> does not catch \<^verbatim>\<open>SystemExit\<close>.
\<close>

fun is_Exception :: "exn \<Rightarrow> bool" where
  "is_Exception (SystemExit _) = False"
| "is_Exception _ = True"

definition main :: "'w env \<Rightarrow> 'w \<Rightarrow> (exn + int) \<times> 'w" where
  "main env w =
     (if \<not> validate_env_vars env then (Inl (SystemExit 1), w)
      else
        (case load_tools env of
           Inl e \<Rightarrow> (Inl e, w)
         | Inr tools \<Rightarrow>
             (case json_len tools of
                Inl e \<Rightarrow> (Inl e, w)
              | Inr _ \<Rightarrow>
                  (case get_dataset env (DATASET_NAME env) w of
                     (Inl e, w1) \<Rightarrow> (Inl (if is_Exception e then SystemExit 1 else e), w1)
                   | (Inr dataset, w1) \<Rightarrow>
                       (case evaluate_models env tools dataset (MODELS_TO_EVALUATE env) [] w1 of
                          (Inl e, w2) \<Rightarrow> (Inl e, w2)
                        | (Inr results, w2) \<Rightarrow>
                            (Inr (if all_passed results (PASS_THRESHOLD env) then 0 else 1),
                             w2))))))"

text \<open>
  \<^verbatim>\<open>exit_code = main(); sys.exit(exit_code)\<close>: the status of the process. An
  exception that nothing catches ends the process with status 1.
\<close>

definition script :: "'w env \<Rightarrow> 'w \<Rightarrow> int \<times> 'w" where
  "script env w =
     (case main env w of
        (Inr exit_code, w') \<Rightarrow> (exit_code, w')
      | (Inl (SystemExit status), w') \<Rightarrow> (status, w')
      | (Inl _, w') \<Rightarrow> (1, w'))"

text \<open>
  The threshold gate in the words of the specification: a model passes when it has no
  error and its accuracy reaches the threshold.
\<close>

definition spec_model_passes :: "rat \<Rightarrow> model_result \<Rightarrow> bool" where
  "spec_model_passes pass_threshold r = (r_error r = None \<and> r_accuracy r \<ge> pass_threshold)"


section \<open>The schema transforms, on objects (run\_evaluation.py)\<close>

text \<open>
  Lists and dictionaries are objects with an identity: two variables can hold the same
  one, and a change through one is seen through the other. The store is the list of all
  objects that have been created, an address is a position in it, and a new object goes
  to the end. A value is a constant or the address of an object. A function that
  creates or changes objects takes the store and returns the new one.
\<close>


type_synonym addr = nat

datatype pyval = PNone | PBool bool | PInt int | PFloat rat | PStr string | PRef addr

datatype pyobj = PList "pyval list" | PDict "(string \<times> pyval) list"

type_synonym heap = "pyobj list"

definition heap_get :: "heap \<Rightarrow> addr \<Rightarrow> pyobj option" where
  "heap_get h a = (if a < length h then Some (h ! a) else None)"

definition alloc :: "heap \<Rightarrow> pyobj \<Rightarrow> pyval \<times> heap" where
  "alloc h obj = (PRef (length h), h @ [obj])"

fun obj_vals :: "pyobj \<Rightarrow> pyval list" where
  "obj_vals (PList vs) = vs"
| "obj_vals (PDict kvs) = map snd kvs"

text \<open>
  \<^verbatim>\<open>for x in v\<close>, \<^verbatim>\<open>v[key]\<close>, \<^verbatim>\<open>v.pop(key)\<close> and
  \<^verbatim>\<open>v[key] = x\<close> on values of the store, with the same exceptions as on JSON
  values. An address outside the store does not occur in Python; it is answered with
  \<^verbatim>\<open>SystemError\<close>.
\<close>

definition py_iter :: "heap \<Rightarrow> pyval \<Rightarrow> exn + pyval list" where
  "py_iter h v =
     (case v of
        PRef a \<Rightarrow>
          (case heap_get h a of
             None \<Rightarrow> Inl SystemError
           | Some (PList vs) \<Rightarrow> Inr vs
           | Some (PDict kvs) \<Rightarrow> Inr (map (\<lambda>kv. PStr (fst kv)) kvs))
      | PStr s \<Rightarrow> Inr (map (\<lambda>c. PStr [c]) s)
      | _ \<Rightarrow> Inl TypeError)"

definition py_subscript :: "heap \<Rightarrow> pyval \<Rightarrow> string \<Rightarrow> exn + pyval" where
  "py_subscript h v key =
     (case v of
        PRef a \<Rightarrow>
          (case heap_get h a of
             None \<Rightarrow> Inl SystemError
           | Some (PList vs) \<Rightarrow> Inl TypeError
           | Some (PDict kvs) \<Rightarrow>
               (case map_of kvs key of None \<Rightarrow> Inl (KeyError key) | Some x \<Rightarrow> Inr x))
      | _ \<Rightarrow> Inl TypeError)"

definition py_pop :: "heap \<Rightarrow> pyval \<Rightarrow> string \<Rightarrow> exn + (pyval \<times> heap)" where
  "py_pop h v key =
     (case v of
        PRef a \<Rightarrow>
          (case heap_get h a of
             None \<Rightarrow> Inl SystemError
           | Some (PList vs) \<Rightarrow> Inl TypeError
           | Some (PDict kvs) \<Rightarrow>
               (case map_of kvs key of
                  None \<Rightarrow> Inl (KeyError key)
                | Some x \<Rightarrow> Inr (x, h[a := PDict (AList.delete key kvs)])))
      | _ \<Rightarrow> Inl AttributeError)"

definition py_setitem :: "heap \<Rightarrow> pyval \<Rightarrow> string \<Rightarrow> pyval \<Rightarrow> exn + heap" where
  "py_setitem h v key x =
     (case v of
        PRef a \<Rightarrow>
          (case heap_get h a of
             None \<Rightarrow> Inl SystemError
           | Some (PList vs) \<Rightarrow> Inl TypeError
           | Some (PDict kvs) \<Rightarrow> Inr (h[a := PDict (AList.update key x kvs)]))
      | _ \<Rightarrow> Inl TypeError)"

text \<open>
  \<^verbatim>\<open>transform_tools_to_openai_format\<close>: for each tool, the three values are read
  from the tool, then the inner dictionary and the entry around it are created; the
  list of the entries is created last. The values read from the tool are stored as they
  are, so an \<^verbatim>\<open>inputSchema\<close> that is an object is shared, not copied.
\<close>

definition openai_tool_obj :: "heap \<Rightarrow> pyval \<Rightarrow> (exn + pyval) \<times> heap" where
  "openai_tool_obj h tool =
     (case py_subscript h tool ''name'' of
        Inl e \<Rightarrow> (Inl e, h)
      | Inr name \<Rightarrow>
     (case py_subscript h tool ''description'' of
        Inl e \<Rightarrow> (Inl e, h)
      | Inr description \<Rightarrow>
     (case py_subscript h tool ''inputSchema'' of
        Inl e \<Rightarrow> (Inl e, h)
      | Inr parameters \<Rightarrow>
          (let (function, h1) = alloc h (PDict [(''name'', name),
                                                (''description'', description),
                                                (''parameters'', parameters)]);
               (entry, h2) = alloc h1 (PDict [(''type'', PStr ''function''),
                                              (''function'', function)])
           in (Inr entry, h2)))))"

fun openai_tools_loop :: "heap \<Rightarrow> pyval list \<Rightarrow> pyval list \<Rightarrow> (exn + pyval list) \<times> heap" where
  "openai_tools_loop h [] result = (Inr result, h)"
| "openai_tools_loop h (tool # rest) result =
     (case openai_tool_obj h tool of
        (Inl e, h') \<Rightarrow> (Inl e, h')
      | (Inr entry, h') \<Rightarrow> openai_tools_loop h' rest (result @ [entry]))"

definition transform_tools_to_openai_format :: "heap \<Rightarrow> pyval \<Rightarrow> (exn + pyval) \<times> heap" where
  "transform_tools_to_openai_format h tools =
     (case py_iter h tools of
        Inl e \<Rightarrow> (Inl e, h)
      | Inr ts \<Rightarrow>
          (case openai_tools_loop h ts [] of
             (Inl e, h') \<Rightarrow> (Inl e, h')
           | (Inr result, h') \<Rightarrow> (let (r, h'') = alloc h' (PList result) in (Inr r, h''))))"

text \<open>
  \<^verbatim>\<open>copy.deepcopy\<close>. The memo pairs every object already copied with its copy, so
  that an object reached twice is copied once. The copy of an object is created after
  the copies of its parts (Python creates it before them; the order of creation cannot
  be observed, except on a cyclic structure, where this function runs out of fuel). The
  fuel bounds the nesting depth; \<open>None\<close> means the fuel did not suffice.
\<close>

type_synonym memo = "(addr \<times> addr) list"

fun deepcopy :: "nat \<Rightarrow> pyval \<Rightarrow> heap \<times> memo \<Rightarrow> (pyval \<times> heap \<times> memo) option"
  and deepcopy_all :: "nat \<Rightarrow> pyval list \<Rightarrow> heap \<times> memo \<Rightarrow> (pyval list \<times> heap \<times> memo) option"
where
  "deepcopy n PNone s = Some (PNone, s)"
| "deepcopy n (PBool b) s = Some (PBool b, s)"
| "deepcopy n (PInt i) s = Some (PInt i, s)"
| "deepcopy n (PFloat x) s = Some (PFloat x, s)"
| "deepcopy n (PStr x) s = Some (PStr x, s)"
| "deepcopy 0 (PRef a) s = None"
| "deepcopy (Suc n) (PRef a) (h, m) =
     (case map_of m a of
        Some b \<Rightarrow> Some (PRef b, h, m)
      | None \<Rightarrow>
          (case heap_get h a of
             None \<Rightarrow> None
           | Some (PList vs) \<Rightarrow>
               (case deepcopy_all n vs (h, m) of
                  None \<Rightarrow> None
                | Some (vs', h', m') \<Rightarrow>
                    Some (PRef (length h'), h' @ [PList vs'], (a, length h') # m'))
           | Some (PDict kvs) \<Rightarrow>
               (case deepcopy_all n (map snd kvs) (h, m) of
                  None \<Rightarrow> None
                | Some (vs', h', m') \<Rightarrow>
                    Some (PRef (length h'), h' @ [PDict (zip (map fst kvs) vs')],
                          (a, length h') # m'))))"
| "deepcopy_all n [] s = Some ([], s)"
| "deepcopy_all n (v # vs) s =
     (case deepcopy n v s of
        None \<Rightarrow> None
      | Some (v', s') \<Rightarrow>
          (case deepcopy_all n vs s' of
             None \<Rightarrow> None
           | Some (vs', s'') \<Rightarrow> Some (v' # vs', s'')))"

text \<open>
  \<^verbatim>\<open>transform_tools_to_antrophic_format\<close>: the catalog is copied, and in every
  element of the copy the key \<^verbatim>\<open>inputSchema\<close> is popped and its value is stored
  under \<^verbatim>\<open>input_schema\<close>, in place.
\<close>

fun antrophic_tools_loop :: "heap \<Rightarrow> pyval list \<Rightarrow> (exn + unit) \<times> heap" where
  "antrophic_tools_loop h [] = (Inr (), h)"
| "antrophic_tools_loop h (tool' # rest) =
     (case py_pop h tool' ''inputSchema'' of
        Inl e \<Rightarrow> (Inl e, h)
      | Inr (schema, h1) \<Rightarrow>
          (case py_setitem h1 tool' ''input_schema'' schema of
             Inl e \<Rightarrow> (Inl e, h1)
           | Inr h2 \<Rightarrow> antrophic_tools_loop h2 rest))"

definition transform_tools_to_antrophic_format ::
  "heap \<Rightarrow> pyval \<Rightarrow> ((exn + pyval) \<times> heap) option" where
  "transform_tools_to_antrophic_format h tools =
     (case deepcopy (length h) tools (h, []) of
        None \<Rightarrow> None
      | Some (t, h1, m) \<Rightarrow>
          Some (case py_iter h1 t of
                  Inl e \<Rightarrow> (Inl e, h1)
                | Inr ts \<Rightarrow>
                    (case antrophic_tools_loop h1 ts of
                       (Inl e, h2) \<Rightarrow> (Inl e, h2)
                     | (Inr _, h2) \<Rightarrow> (Inr t, h2))))"

text \<open>
  A store is well-founded when every object refers to objects created before it only.
  This is so for what \<^verbatim>\<open>json.load\<close> builds, and both transforms keep it so.
\<close>

fun val_below :: "nat \<Rightarrow> pyval \<Rightarrow> bool" where
  "val_below n (PRef a) = (a < n)"
| "val_below n _ = True"

fun wf_from :: "nat \<Rightarrow> heap \<Rightarrow> bool" where
  "wf_from n [] = True"
| "wf_from n (obj # h) = (list_all (val_below n) (obj_vals obj) \<and> wf_from (Suc n) h)"

definition wf_heap :: "heap \<Rightarrow> bool" where
  "wf_heap h = wf_from 0 h"

text \<open>
  The JSON value that a value of the store stands for, read with fuel; in a
  well-founded store the length of the store is enough fuel. \<open>reaches h v a\<close>: the
  object at \<open>a\<close> is \<open>v\<close> itself or a part of it, at any depth.
\<close>

fun reify :: "nat \<Rightarrow> heap \<Rightarrow> pyval \<Rightarrow> json option" where
  "reify n h PNone = Some JNull"
| "reify n h (PBool b) = Some (JBool b)"
| "reify n h (PInt i) = Some (JInt i)"
| "reify n h (PFloat x) = Some (JFloat x)"
| "reify n h (PStr s) = Some (JStr s)"
| "reify 0 h (PRef a) = None"
| "reify (Suc n) h (PRef a) =
     (case heap_get h a of
        None \<Rightarrow> None
      | Some (PList vs) \<Rightarrow> map_option JList (those (map (reify n h) vs))
      | Some (PDict kvs) \<Rightarrow>
          map_option (\<lambda>js. JDict (zip (map fst kvs) js)) (those (map (reify n h) (map snd kvs))))"

definition py_reify :: "heap \<Rightarrow> pyval \<Rightarrow> json option" where
  "py_reify h v = reify (length h) h v"

inductive reaches :: "heap \<Rightarrow> pyval \<Rightarrow> addr \<Rightarrow> bool" for h :: heap where
  here: "a < length h \<Longrightarrow> reaches h (PRef a) a"
| step: "a < length h \<Longrightarrow> v \<in> set (obj_vals (h ! a)) \<Longrightarrow> reaches h v b \<Longrightarrow> reaches h (PRef a) b"

definition json_of :: "heap \<Rightarrow> pyval \<Rightarrow> json" where
  "json_of h v = the (py_reify h v)"

abbreviation val_ok :: "heap \<Rightarrow> pyval \<Rightarrow> bool" where
  "val_ok h v \<equiv> val_below (length h) v"

text \<open>
  Predicates for the statements and proofs about the store. \<open>copy_inv hs h m\<close>: the
  store \<open>h\<close> extends the store \<open>hs\<close> at the start of the copy, and every pair of the
  memo links an object of \<open>hs\<close> to a new object with the same JSON reading whose parts
  are copies again. \<open>separate h ts\<close>: the objects in the list \<open>ts\<close> are different
  objects and none is a part of another. \<open>yields h r expected\<close>: \<open>r\<close> raises what
  \<open>expected\<close> raises, or is a value of \<open>h\<close> that reads as the JSON value
  \<open>expected\<close> returns. \<open>catalog\<close> is a store with a catalog of two tools.
\<close>

definition copy_rel :: "memo \<Rightarrow> pyval \<Rightarrow> pyval \<Rightarrow> bool" where
  "copy_rel m v v' = (case v of PRef a \<Rightarrow> (\<exists>b. v' = PRef b \<and> (a, b) \<in> set m) | _ \<Rightarrow> v' = v)"

definition copy_inv :: "heap \<Rightarrow> heap \<Rightarrow> memo \<Rightarrow> bool" where
  "copy_inv hs h m \<longleftrightarrow>
     prefix hs h \<and> wf_heap h \<and> distinct (map snd m) \<and>
     (\<forall>(a, b) \<in> set m.
        a < length hs \<and> length hs \<le> b \<and> b < length h \<and>
        json_of h (PRef b) = json_of hs (PRef a) \<and>
        (\<forall>x. reaches h (PRef b) x \<longrightarrow> (\<exists>a'. (a', x) \<in> set m \<and> reaches hs (PRef a) a')))"

definition copied :: "heap \<Rightarrow> nat \<Rightarrow> pyval \<Rightarrow> heap \<Rightarrow> memo \<Rightarrow> bool" where
  "copied hs n v h m \<longleftrightarrow>
     (\<exists>v' h' m'. deepcopy n v (h, m) = Some (v', h', m') \<and> copy_inv hs h' m' \<and>
        prefix h h' \<and> set m \<subseteq> set m' \<and> copy_rel m' v v')"

definition copied_all :: "heap \<Rightarrow> nat \<Rightarrow> pyval list \<Rightarrow> heap \<Rightarrow> memo \<Rightarrow> bool" where
  "copied_all hs n vs h m \<longleftrightarrow>
     (\<exists>vs' h' m'. deepcopy_all n vs (h, m) = Some (vs', h', m') \<and> copy_inv hs h' m' \<and>
        prefix h h' \<and> set m \<subseteq> set m' \<and> list_all2 (copy_rel m') vs vs')"

fun ref_addrs :: "pyval list \<Rightarrow> addr list" where
  "ref_addrs [] = []"
| "ref_addrs (PRef a # vs) = a # ref_addrs vs"
| "ref_addrs (v # vs) = ref_addrs vs"

definition separate :: "heap \<Rightarrow> pyval list \<Rightarrow> bool" where
  "separate g es \<longleftrightarrow>
     distinct (ref_addrs es) \<and>
     (\<forall>a \<in> set (ref_addrs es). \<forall>x \<in> set (ref_addrs es). reaches g (PRef a) x \<longrightarrow> x = a)"

definition shrinks :: "heap \<Rightarrow> heap \<Rightarrow> bool" where
  "shrinks g g' \<longleftrightarrow>
     length g' = length g \<and> (\<forall>a < length g. set (obj_vals (g' ! a)) \<subseteq> set (obj_vals (g ! a)))"

definition separate_tools :: "heap \<Rightarrow> pyval \<Rightarrow> bool" where
  "separate_tools h tools = (case py_iter h tools of Inl e \<Rightarrow> True | Inr ts \<Rightarrow> separate h ts)"

definition yields :: "heap \<Rightarrow> exn + pyval \<Rightarrow> exn + json \<Rightarrow> bool" where
  "yields h r expected =
     (case expected of
        Inl e \<Rightarrow> r = Inl e
      | Inr j \<Rightarrow> (case r of Inl e \<Rightarrow> False | Inr t \<Rightarrow> val_ok h t \<and> py_reify h t = Some j))"

definition catalog :: heap where
  "catalog =
     [PDict [(''type'', PStr ''object'')],
      PDict [(''name'', PStr ''search-actors''), (''description'', PStr ''Search''),
             (''inputSchema'', PRef 0)],
      PDict [(''type'', PStr ''object''), (''required'', PStr ''actor'')],
      PDict [(''name'', PStr ''fetch-actor-details''), (''description'', PStr ''Fetch''),
             (''inputSchema'', PRef 2)],
      PList [PRef 1, PRef 3]]"


text \<open>
  A small environment for concrete runs: three evaluations come back for every
  experiment, two of them correct, the world is the list of the experiments that were
  run, and both providers are out of reach.
\<close>

definition demo_env :: "string list env" where
  "demo_env =
     \<lparr>MODELS_TO_EVALUATE = [''gpt-4o'', ''llama-3'', ''claude-3-5-haiku''],
      SYSTEM_PROMPT = ''Pick the right tool.'',
      DATASET_NAME = ''mcp_tool_calling_ground_truth_v1'',
      PASS_THRESHOLD = 8 / 10,
      validate_env_vars = True,
      tools_file = Some (Inr (JList [])),
      get_dataset = (\<lambda>name w. (Inr \<lparr>ds_id = name, ds_examples = []\<rparr>, w)),
      run_experiment = (\<lambda>dataset task_fnc ev name description w.
         (Inr \<lparr>exp_id = name,
               get_evaluations = Inr (Some
                 \<lparr>df_columns = [''run_id'', ''name'', ''score'', ''label'', ''output'',
                                ''expected''],
                  df_rows =
                    [\<lparr>ev_score = Some 1, ev_label = ''True''\<rparr>,
                     \<lparr>ev_score = Some 1, ev_label = ''True''\<rparr>,
                     \<lparr>ev_score = Some 0, ev_label = ''False''\<rparr>]\<rparr>)\<rparr>,
          w @ [name])),
      openai_create = (\<lambda>request w. (Inl (ProviderError ''offline''), w)),
      anthropic_create = (\<lambda>request w. (Inl (ProviderError ''offline''), w))\<rparr>"

text \<open>
  The same environment when no evaluation of an experiment is correct: every score is 0,
  and the table of the three evaluations comes without the column \<^verbatim>\<open>score\<close>.
  \<open>empty_table\<close> is the table of no evaluation at all, which has no column.
  \<open>no_choice_create\<close> is a provider that answers with a completion without choices.
\<close>

definition no_choice_create :: "openai_request \<Rightarrow> nat \<Rightarrow> (exn + openai_response) \<times> nat" where
  "no_choice_create request w = (Inr (OpenAIResponse []), Suc w)"

definition all_wrong_table :: dataframe where
  "all_wrong_table =
     \<lparr>df_columns = [''run_id'', ''name'', ''label'', ''output'', ''expected''],
      df_rows =
        [\<lparr>ev_score = None, ev_label = ''False''\<rparr>,
         \<lparr>ev_score = None, ev_label = ''False''\<rparr>,
         \<lparr>ev_score = None, ev_label = ''False''\<rparr>]\<rparr>"

definition empty_table :: dataframe where
  "empty_table = \<lparr>df_columns = [], df_rows = []\<rparr>"

definition all_wrong_env :: "string list env" where
  "all_wrong_env =
     demo_env\<lparr>run_experiment := (\<lambda>dataset task_fnc ev name description w.
         (Inr \<lparr>exp_id = name, get_evaluations = Inr (Some all_wrong_table)\<rparr>,
          w @ [name]))\<rparr>"


section \<open>Properties of the matcher\<close>

lemma sort_eq_iff_mset: "sort xs = sort ys \<longleftrightarrow> mset xs = mset (ys :: 'a :: linorder list)"
proof
  assume "sort xs = sort ys"
  then have "mset (sort xs) = mset (sort ys)" by simp
  then show "mset xs = mset ys" by simp
next
  assume "mset xs = mset ys"
  then show "sort xs = sort ys"
    by (intro properties_for_sort) simp_all
qed

lemma strip_empty_iff: "strip t = [] \<longleftrightarrow> list_all is_space t"
  by (induction t) (auto simp: strip_def list_all_iff)

lemma tool_call_entries_Inr:
  "tool_call_entries expected =
     Inr (case expected ''tool_calls'' of
            None \<Rightarrow> []
          | Some s \<Rightarrow> if s = [] then [] else split_from '', '' [] s)"
  by (simp add: tool_call_entries_def split_def split: option.splits)

lemma concat_map_if: "[f x. x \<leftarrow> xs, P x] = map f (filter P xs)"
  by (induction xs) simp_all

lemma expected_tools_of_Inr:
  "tool_call_entries expected = Inr entries \<Longrightarrow>
   expected_tools_of expected = Inr (map strip (filter (\<lambda>t. \<not> list_all is_space t) entries))"
  by (simp add: expected_tools_of_def strip_empty_iff concat_map_if)

lemma tools_match_mset:
  "tools_match expected output =
     (case expected_tools_of expected of
        Inl e \<Rightarrow> Inl e
      | Inr expected_tools \<Rightarrow> Inr (mset expected_tools = mset output))"
  unfolding tools_match_def by (simp only: sort_eq_iff_mset)

lemma tools_match_Inr:
  "tool_call_entries expected = Inr entries \<Longrightarrow>
   tools_match expected output =
     Inr (sort (map strip (filter (\<lambda>t. \<not> list_all is_space t) entries)) = sort output)"
  by (simp add: tools_match_def expected_tools_of_Inr)

lemma tools_match_perm:
  "mset output = mset output' \<Longrightarrow> tools_match expected output = tools_match expected output'"
  by (simp add: tools_match_mset split: sum.splits)

lemma tools_match_extra:
  "tools_match expected output = Inr True \<Longrightarrow> tools_match expected (x # output) = Inr False"
  by (auto simp: tools_match_mset split: sum.splits)

lemma tools_match_missing:
  "tools_match expected (x # output) = Inr True \<Longrightarrow> tools_match expected output = Inr False"
  by (auto simp: tools_match_mset split: sum.splits)

lemma tools_match_wrong:
  "tools_match expected (x # output) = Inr True \<Longrightarrow> y \<noteq> x \<Longrightarrow>
   tools_match expected (y # output) = Inr False"
  by (auto simp: tools_match_mset split: sum.splits)

lemmas matcher_eval = tools_match_def expected_tools_of_def tool_call_entries_def split_def
  strip_def is_space_def

text \<open>
  Claim C1. The matcher never raises. It answers true exactly when the expected tool names
  and the observed list are equal after sorting, which is the same as being equal as
  multisets. The expected names are the pieces of the \<^verbatim>\<open>tool_calls\<close> string
  between \<^verbatim>\<open>', '\<close>, without the pieces that are empty or all whitespace, each
  stripped of the whitespace at its ends. So the order of the observed list does not
  matter, a name that occurs twice counts twice, nothing against nothing matches, and one
  tool too many, one too few or one replaced by another gives false.
\<close>

theorem tools_match_sorted_multiset:
  "\<exists>entries. tool_call_entries expected = Inr entries
     \<and> tools_match expected output =
         Inr (sort (map strip (filter (\<lambda>t. \<not> list_all is_space t) entries)) = sort output)
     \<and> tools_match expected output =
         Inr (mset (map strip (filter (\<lambda>t. \<not> list_all is_space t) entries)) = mset output)
     \<and> (mset output = mset output' \<longrightarrow>
          tools_match expected output = tools_match expected output')
     \<and> (tools_match expected output = Inr True \<longrightarrow>
          tools_match expected (x # output) = Inr False)
     \<and> (tools_match expected (x # output) = Inr True \<longrightarrow>
          tools_match expected output = Inr False
          \<and> (\<forall>y. y \<noteq> x \<longrightarrow> tools_match expected (y # output) = Inr False))
     \<and> tools_match [''tool_calls'' \<mapsto> ''a, b''] [''b'', ''a''] = Inr True
     \<and> tools_match [''tool_calls'' \<mapsto> ''a, a''] [''a''] = Inr False
     \<and> tools_match [''tool_calls'' \<mapsto> ''''] [] = Inr True
     \<and> tools_match Map.empty [] = Inr True
     \<and> tools_match [''tool_calls'' \<mapsto> ''a''] [] = Inr False"
proof -
  obtain entries where e: "tool_call_entries expected = Inr entries"
    using tool_call_entries_Inr by blast
  have sorted_form: "tools_match expected output =
      Inr (sort (map strip (filter (\<lambda>t. \<not> list_all is_space t) entries)) = sort output)"
    using e by (rule tools_match_Inr)
  have mset_form: "tools_match expected output =
      Inr (mset (map strip (filter (\<lambda>t. \<not> list_all is_space t) entries)) = mset output)"
    using sorted_form by (simp only: sort_eq_iff_mset)
  have perm: "mset output = mset output' \<longrightarrow>
      tools_match expected output = tools_match expected output'"
    using tools_match_perm by blast
  have extra: "tools_match expected output = Inr True \<longrightarrow>
      tools_match expected (x # output) = Inr False"
    using tools_match_extra by blast
  have missing: "tools_match expected (x # output) = Inr True \<longrightarrow>
      tools_match expected output = Inr False
      \<and> (\<forall>y. y \<noteq> x \<longrightarrow> tools_match expected (y # output) = Inr False)"
  proof
    assume t: "tools_match expected (x # output) = Inr True"
    have "tools_match expected output = Inr False"
      using t by (rule tools_match_missing)
    moreover have "\<forall>y. y \<noteq> x \<longrightarrow> tools_match expected (y # output) = Inr False"
      using t tools_match_wrong by blast
    ultimately show "tools_match expected output = Inr False
      \<and> (\<forall>y. y \<noteq> x \<longrightarrow> tools_match expected (y # output) = Inr False)" by simp
  qed
  have ex1: "tools_match [''tool_calls'' \<mapsto> ''a, b''] [''b'', ''a''] = Inr True"
    by (simp add: matcher_eval)
  have ex2: "tools_match [''tool_calls'' \<mapsto> ''a, a''] [''a''] = Inr False"
    by (simp add: matcher_eval)
  have ex3: "tools_match [''tool_calls'' \<mapsto> ''''] [] = Inr True"
    by (simp add: matcher_eval)
  have ex4: "tools_match Map.empty [] = Inr True"
    by (simp add: matcher_eval)
  have ex5: "tools_match [''tool_calls'' \<mapsto> ''a''] [] = Inr False"
    by (simp add: matcher_eval)
  show ?thesis
    using e sorted_form mset_form perm extra missing ex1 ex2 ex3 ex4 ex5 by blast
qed

theorem tools_match_sorted_multiset_witness:
  "mset [''search'', ''fetch''] = mset [''fetch'', ''search'']
   \<and> tools_match [''tool_calls'' \<mapsto> ''fetch,  , search ''] [''search'', ''fetch''] = Inr True
   \<and> tools_match [''tool_calls'' \<mapsto> ''fetch,  , search ''] [''fetch'', ''search''] = Inr True
   \<and> tools_match [''tool_calls'' \<mapsto> ''fetch,  , search ''] [''docs'', ''search'', ''fetch'']
       = Inr False
   \<and> tools_match [''tool_calls'' \<mapsto> ''fetch,  , search ''] [''fetch''] = Inr False"
proof -
  have "tools_match [''tool_calls'' \<mapsto> ''fetch,  , search ''] [''search'', ''fetch''] = Inr True"
    by (simp add: matcher_eval)
  moreover have "mset [''search'', ''fetch''] = mset [''fetch'', ''search'']"
    by simp
  ultimately show ?thesis
    using tools_match_sorted_multiset
      [of "[''tool_calls'' \<mapsto> ''fetch,  , search '']" "[''search'', ''fetch'']"
          "[''fetch'', ''search'']" "''docs''"]
      tools_match_sorted_multiset
      [of "[''tool_calls'' \<mapsto> ''fetch,  , search '']" "[''fetch'']"
          "[''fetch'']" "''search''"]
    by auto
qed


section \<open>Dataset creation and the matcher\<close>

lemma split_from_no_comma:
  "CHR '','' \<notin> set t \<Longrightarrow> split_from '', '' acc t = [rev acc @ t]"
  by (induction t arbitrary: acc) auto

lemma split_from_sep:
  "CHR '','' \<notin> set t \<Longrightarrow>
   split_from '', '' acc (t @ '', '' @ rest) = (rev acc @ t) # split_from '', '' [] rest"
  by (induction t arbitrary: acc) auto

lemma split_join:
  "ts \<noteq> [] \<Longrightarrow> \<forall>t \<in> set ts. CHR '','' \<notin> set t \<Longrightarrow>
   split_from '', '' [] (join '', '' ts) = ts"
proof (induction "'', ''" ts rule: join.induct)
  case 1
  then show ?case by simp
next
  case (2 x)
  then show ?case by (simp add: split_from_no_comma)
next
  case (3 x y ys)
  then show ?case
    using split_from_sep [of x "[]" "join '', '' (y # ys)"] by simp
qed

lemma join_nonempty: "ts \<noteq> [] \<Longrightarrow> \<forall>t \<in> set ts. t \<noteq> [] \<Longrightarrow> join sep ts \<noteq> []"
  by (induction sep ts rule: join.induct) auto

lemma expected_tools_of_join:
  assumes "\<forall>t \<in> set ts. t \<noteq> [] \<and> CHR '','' \<notin> set t \<and> strip t = t"
  shows "expected_tools_of [''tool_calls'' \<mapsto> join '', '' ts] = Inr ts"
proof (cases "ts = []")
  case True
  then show ?thesis
    by (simp add: expected_tools_of_def tool_call_entries_def)
next
  case False
  have ne: "join '', '' ts \<noteq> []"
    using False assms by (simp add: join_nonempty)
  have sp: "split_from '', '' [] (join '', '' ts) = ts"
    using False assms by (simp add: split_join)
  have keep: "filter (\<lambda>t. strip t \<noteq> []) ts = ts"
    using assms by (simp add: filter_id_conv)
  have same: "map strip ts = ts"
    using assms by (simp add: map_idI)
  show ?thesis
    using ne sp keep same
    by (simp add: expected_tools_of_def tool_call_entries_def split_def concat_map_if)
qed

text \<open>
  Claim C10. Take any list of tool names that are not empty, contain no comma and have no
  whitespace at either end. The row that dataset creation writes for it, read back as the
  expected record and matched against the same list, gives true; and for a list that is
  not empty, splitting the joined string at \<^verbatim>\<open>', '\<close> gives the list back.
\<close>

theorem join_then_tools_match:
  assumes "\<forall>t \<in> set (tc_expected_tools tc). t \<noteq> [] \<and> CHR '','' \<notin> set t \<and> strip t = t"
  shows "tools_match (expected_of_row (dataset_row_of tc)) (tc_expected_tools tc) = Inr True
       \<and> expected_tools_of (expected_of_row (dataset_row_of tc)) = Inr (tc_expected_tools tc)
       \<and> (tc_expected_tools tc \<noteq> [] \<longrightarrow>
            split (row_tool_calls (dataset_row_of tc)) '', '' = Inr (tc_expected_tools tc))"
proof -
  let ?ts = "tc_expected_tools tc"
  have row: "expected_of_row (dataset_row_of tc) = [''tool_calls'' \<mapsto> join '', '' ?ts]"
    by (simp add: expected_of_row_def dataset_row_of_def)
  have parsed: "expected_tools_of (expected_of_row (dataset_row_of tc)) = Inr ?ts"
    unfolding row using assms by (rule expected_tools_of_join)
  have matched: "tools_match (expected_of_row (dataset_row_of tc)) ?ts = Inr True"
    by (simp add: tools_match_def parsed)
  have inv: "?ts \<noteq> [] \<longrightarrow> split (row_tool_calls (dataset_row_of tc)) '', '' = Inr ?ts"
    using assms by (simp add: split_def dataset_row_of_def split_join)
  show ?thesis
    using matched parsed inv by simp
qed

theorem join_then_tools_match_witness:
  "strip ''search-actors'' = ''search-actors''
   \<and> strip ''fetch-actor-details'' = ''fetch-actor-details''
   \<and> CHR '','' \<notin> set ''search-actors'' \<and> CHR '','' \<notin> set ''fetch-actor-details''
   \<and> row_tool_calls (dataset_row_of
        \<lparr>tc_question = ''q'', tc_expected_tools = [''search-actors'', ''fetch-actor-details''],
         tc_category = ''c''\<rparr>) = ''search-actors, fetch-actor-details''
   \<and> tools_match (expected_of_row (dataset_row_of
        \<lparr>tc_question = ''q'', tc_expected_tools = [''search-actors'', ''fetch-actor-details''],
         tc_category = ''c''\<rparr>)) [''search-actors'', ''fetch-actor-details''] = Inr True
   \<and> split ''search-actors, fetch-actor-details'' '', ''
       = Inr [''search-actors'', ''fetch-actor-details'']"
proof -
  have h: "\<forall>t \<in> set (tc_expected_tools
        \<lparr>tc_question = ''q'', tc_expected_tools = [''search-actors'', ''fetch-actor-details''],
         tc_category = ''c''\<rparr>). t \<noteq> [] \<and> CHR '','' \<notin> set t \<and> strip t = t"
    by (simp add: strip_def is_space_def)
  have r: "row_tool_calls (dataset_row_of
        \<lparr>tc_question = ''q'', tc_expected_tools = [''search-actors'', ''fetch-actor-details''],
         tc_category = ''c''\<rparr>) = ''search-actors, fetch-actor-details''"
    by (simp add: dataset_row_of_def)
  show ?thesis
    using join_then_tools_match [OF h] h r by (simp add: strip_def is_space_def)
qed

section \<open>The threshold gate and the exit status\<close>

lemma truediv_2_3: "truediv 2 3 = Inr (6004799503160661 / 9007199254740992)"
  by (simp add: truediv_def float_exponent_def bit_length.simps round_half_even_def
      scaled_def Let_def)

lemma truediv_2_3_Suc:
  "truediv (Suc (Suc 0)) (Suc (Suc (Suc 0))) = Inr (6004799503160661 / 9007199254740992)"
  using truediv_2_3 by (simp add: numeral_2_eq_2 numeral_3_eq_3)

lemmas runner_eval = script_def main_def load_tools_def json_len_def evaluate_model_def
  run_model_def aggregate_def df_score_above_half_def print_sample_def df_select_def
  truediv_2_3_Suc bind_exn_def score_above_half_def all_passed_def unknown_model_result_def

lemma all_passed_iff:
  "all_passed rs thr \<longleftrightarrow> (\<forall>r \<in> set rs. r_error r = None \<longrightarrow> r_accuracy r \<ge> thr)"
  by (auto simp: all_passed_def list_all_iff)

lemma all_passed_append: "all_passed (xs @ ys) thr \<longleftrightarrow> all_passed xs thr \<and> all_passed ys thr"
  by (auto simp: all_passed_def)

lemma all_passed_Cons:
  "all_passed (r # rs) thr \<longleftrightarrow> (r_error r = None \<longrightarrow> r_accuracy r \<ge> thr) \<and> all_passed rs thr"
  by (auto simp: all_passed_def)


text \<open>
  Claim C3. Against a threshold, a model passes when it has no error and its accuracy
  reaches the threshold. The verdict of the gate is the conjunction of that over the
  results without an error, and over those only: a result with an error does not pass,
  and taking it out of the list, or putting it in, leaves the verdict as it was.
\<close>

theorem threshold_gate:
  "(all_passed results thr \<longleftrightarrow>
      (\<forall>r \<in> set results. r_error r = None \<longrightarrow> spec_model_passes thr r))
   \<and> all_passed results thr =
       list_all (spec_model_passes thr) (filter (\<lambda>r. r_error r = None) results)
   \<and> all_passed results thr = all_passed (filter (\<lambda>r. r_error r = None) results) thr
   \<and> (r_error r \<noteq> None \<longrightarrow> \<not> spec_model_passes thr r
        \<and> all_passed (xs @ r # ys) thr = all_passed (xs @ ys) thr)
   \<and> (r_error r = None \<longrightarrow>
        all_passed (xs @ r # ys) thr = (spec_model_passes thr r \<and> all_passed (xs @ ys) thr))"
  by (auto simp: all_passed_iff spec_model_passes_def list_all_iff)

theorem threshold_gate_witness:
  "all_passed
     [\<lparr>r_model = ''gpt-4o'', r_accuracy = 9 / 10, r_correct = 9, r_total = 10,
       r_experiment_id = Some ''e1'', r_error = None\<rparr>,
      unknown_model_result ''llama-3''] (8 / 10)
   \<and> spec_model_passes (8 / 10)
       \<lparr>r_model = ''gpt-4o'', r_accuracy = 9 / 10, r_correct = 9, r_total = 10,
        r_experiment_id = Some ''e1'', r_error = None\<rparr>
   \<and> \<not> spec_model_passes (8 / 10) (unknown_model_result ''llama-3'')
   \<and> \<not> all_passed
       [\<lparr>r_model = ''gpt-4o'', r_accuracy = 2 / 3, r_correct = 2, r_total = 3,
         r_experiment_id = Some ''e1'', r_error = None\<rparr>,
        unknown_model_result ''llama-3''] (8 / 10)"
  using threshold_gate
    [of "[\<lparr>r_model = ''gpt-4o'', r_accuracy = 9 / 10, r_correct = 9, r_total = 10,
           r_experiment_id = Some ''e1'', r_error = None\<rparr>,
          unknown_model_result ''llama-3'']" "8 / 10" "unknown_model_result ''llama-3''"
        "[]" "[]"]
    threshold_gate
    [of "[\<lparr>r_model = ''gpt-4o'', r_accuracy = 2 / 3, r_correct = 2, r_total = 3,
           r_experiment_id = Some ''e1'', r_error = None\<rparr>,
          unknown_model_result ''llama-3'']" "8 / 10" "unknown_model_result ''llama-3''"
        "[]" "[]"]
  by (simp add: unknown_model_result_def spec_model_passes_def)


section \<open>Division of integers\<close>

text \<open>
  The quotient that \<open>truediv\<close> returns for a numerator that does not exceed the
  denominator is a double between 0 and 1 that differs from the exact quotient by
  \<^verbatim>\<open>2 ** -53\<close> at most; it is 0 for the numerator 0 and 1 when both are the same.
\<close>

lemma bit_length_bounds:
  "0 < n \<Longrightarrow> 2 ^ (bit_length n - 1) \<le> n \<and> n < 2 ^ bit_length n"
proof (induction n rule: bit_length.induct)
  case (1 n)
  show ?case
  proof (cases "n div 2 = 0")
    case True
    then have "n = 1" using 1(2) by auto
    then show ?thesis by (simp add: bit_length.simps)
  next
    case False
    then have pos: "0 < n div 2" by simp
    have n0: "n \<noteq> 0" using 1(2) by simp
    have ih: "2 ^ (bit_length (n div 2) - 1) \<le> n div 2 \<and> n div 2 < 2 ^ bit_length (n div 2)"
      using 1(1) [OF n0 pos] .
    have bl: "bit_length n = Suc (bit_length (n div 2))"
      using n0 by (subst bit_length.simps) simp
    have blpos: "0 < bit_length (n div 2)"
      using pos by (subst bit_length.simps) simp
    then obtain k where k: "bit_length (n div 2) = Suc k"
      by (cases "bit_length (n div 2)") auto
    have lo: "2 ^ Suc k \<le> n"
      using ih k by simp linarith
    have hi: "n < 2 ^ Suc (Suc k)"
      using ih k by simp linarith
    show ?thesis
      using lo hi by (simp add: bl k)
  qed
qed

lemma bit_length_pos: "0 < n \<Longrightarrow> 0 < bit_length n"
  by (subst bit_length.simps) simp

lemma bit_length_rat:
  assumes "0 < n"
  shows "(2 :: rat) powi (int (bit_length n) - 1) \<le> of_nat n"
    and "of_nat n < (2 :: rat) powi int (bit_length n)"
proof -
  obtain k where k: "bit_length n = Suc k"
    using bit_length_pos [OF assms] by (cases "bit_length n") auto
  have b: "2 ^ k \<le> n" "n < 2 ^ Suc k"
    using bit_length_bounds [OF assms] k by auto
  have "(of_nat (2 ^ k) :: rat) \<le> of_nat n"
    using b(1) by (simp only: of_nat_le_iff)
  then show "(2 :: rat) powi (int (bit_length n) - 1) \<le> of_nat n"
    by (simp add: k)
  have "(of_nat n :: rat) < of_nat (2 ^ Suc k)"
    using b(2) by (simp only: of_nat_less_iff)
  then have "(of_nat n :: rat) < 2 ^ Suc k"
    by (simp only: of_nat_power of_nat_numeral)
  then show "of_nat n < (2 :: rat) powi int (bit_length n)"
    unfolding k power_int_of_nat .
qed

lemma scaled_value:
  assumes "0 < b" and "scaled a b k = (n, d)"
  shows "0 < d" and "(of_nat n :: rat) / of_nat d = of_nat a / of_nat b * 2 powi k"
proof -
  show "0 < d" using assms by (auto simp: scaled_def split: if_splits)
  show "(of_nat n :: rat) / of_nat d = of_nat a / of_nat b * 2 powi k"
  proof (cases "k \<ge> 0")
    case True
    then have "n = a * 2 ^ nat k" "d = b" using assms by (auto simp: scaled_def)
    then show ?thesis using True by (simp add: power_int_def)
  next
    case False
    then have "n = a" "d = b * 2 ^ nat (- k)" using assms by (auto simp: scaled_def)
    then show ?thesis using False by (simp add: power_int_def field_simps)
  qed
qed

lemma float_exponent_bounds:
  assumes "0 < a" and "0 < b"
  shows "(2 :: rat) powi float_exponent a b \<le> of_nat a / of_nat b"
    and "of_nat a / of_nat b < (2 :: rat) powi (float_exponent a b + 1)"
proof -
  define d where "d = int (bit_length a) - int (bit_length b)"
  define q :: rat where "q = of_nat a / of_nat b"
  obtain n m where s: "scaled a b (- d) = (n, m)" by (cases "scaled a b (- d)")
  have m: "0 < m" and v: "(of_nat n :: rat) / of_nat m = q * 2 powi (- d)"
    using scaled_value [OF assms(2) s] by (simp_all add: q_def)
  have e: "float_exponent a b = (if m \<le> n then d else d - 1)"
    by (simp add: float_exponent_def d_def [symmetric] s)
  have p: "(0 :: rat) < 2 powi k" for k by simp
  have pd: "(2 :: rat) powi x / 2 powi y = 2 powi (x - y)" for x y :: int
    by (simp add: power_int_diff)
  have bpos: "(0 :: rat) < of_nat b" using assms by simp
  have cmp: "m \<le> n \<longleftrightarrow> 2 powi d \<le> q"
  proof -
    have "m \<le> n \<longleftrightarrow> (1 :: rat) \<le> of_nat n / of_nat m"
      using m by (simp add: field_simps)
    also have "\<dots> \<longleftrightarrow> 1 \<le> q * 2 powi (- d)" by (simp only: v)
    also have "\<dots> \<longleftrightarrow> 2 powi d \<le> q"
      by (simp add: power_int_minus field_simps)
    finally show ?thesis .
  qed
  have up: "q < 2 powi (d + 1)"
  proof -
    have "of_nat a < (2 :: rat) powi int (bit_length a)"
      using bit_length_rat(2) [OF assms(1)] .
    moreover have "(2 :: rat) powi (int (bit_length b) - 1) \<le> of_nat b"
      using bit_length_rat(1) [OF assms(2)] .
    ultimately have "of_nat a * (2 :: rat) powi (int (bit_length b) - 1)
        < 2 powi int (bit_length a) * of_nat b"
      using bpos p by (intro mult_less_le_imp_less) simp_all
    then have "q < 2 powi int (bit_length a) / 2 powi (int (bit_length b) - 1)"
      using bpos p [of "int (bit_length b) - 1"] by (simp add: q_def field_simps)
    also have "\<dots> = 2 powi (int (bit_length a) - (int (bit_length b) - 1))"
      by (rule pd)
    also have "int (bit_length a) - (int (bit_length b) - 1) = d + 1"
      by (simp add: d_def)
    finally show ?thesis .
  qed
  have lo: "2 powi (d - 1) \<le> q"
  proof -
    have "(2 :: rat) powi (int (bit_length a) - 1) \<le> of_nat a"
      using bit_length_rat(1) [OF assms(1)] .
    moreover have "of_nat b < (2 :: rat) powi int (bit_length b)"
      using bit_length_rat(2) [OF assms(2)] .
    ultimately have "(2 :: rat) powi (int (bit_length a) - 1) * of_nat b
        \<le> of_nat a * 2 powi int (bit_length b)"
      using bpos p by (intro mult_mono) simp_all
    then have "2 powi (int (bit_length a) - 1) / 2 powi int (bit_length b) \<le> q"
      using bpos p [of "int (bit_length b)"] by (simp add: q_def field_simps)
    moreover have "(2 :: rat) powi (int (bit_length a) - 1) / 2 powi int (bit_length b)
        = 2 powi (int (bit_length a) - 1 - int (bit_length b))"
      by (rule pd)
    moreover have "int (bit_length a) - 1 - int (bit_length b) = d - 1"
      by (simp add: d_def)
    ultimately show ?thesis by simp
  qed
  show "(2 :: rat) powi float_exponent a b \<le> of_nat a / of_nat b"
    using cmp lo by (simp add: e q_def)
  show "of_nat a / of_nat b < (2 :: rat) powi (float_exponent a b + 1)"
    using cmp up by (auto simp: e q_def not_le)
qed

lemma round_half_even_error:
  assumes "0 < d"
  shows "\<bar>of_nat (round_half_even (n, d)) - (of_nat n :: rat) / of_nat d\<bar> \<le> 1 / 2"
proof -
  define q where "q = n div d"
  define r where "r = n mod d"
  have n: "n = q * d + r" by (simp add: q_def r_def)
  have rd: "r < d" using assms by (simp add: r_def)
  have dpos: "(0 :: rat) < of_nat d" using assms by simp
  have val: "(of_nat n :: rat) / of_nat d = of_nat q + of_nat r / of_nat d"
    using dpos by (simp add: n field_simps)
  have rhe: "round_half_even (n, d) =
      (if 2 * r < d then q else if 2 * r > d then q + 1 else if even q then q else q + 1)"
    by (simp add: round_half_even_def q_def r_def Let_def)
  consider "2 * r < d" | "2 * r > d" | "2 * r = d" by linarith
  then show ?thesis
  proof cases
    case 1
    then have "(of_nat (2 * r) :: rat) \<le> of_nat d" by (simp only: of_nat_le_iff)
    then have "(of_nat r :: rat) / of_nat d \<le> 1 / 2" using dpos by (simp add: field_simps)
    moreover have "(0 :: rat) \<le> of_nat r / of_nat d" by simp
    ultimately show ?thesis using 1 by (simp add: rhe val)
  next
    case 2
    then have "(of_nat d :: rat) \<le> of_nat (2 * r)" by (simp only: of_nat_le_iff)
    then have a: "(1 :: rat) / 2 \<le> of_nat r / of_nat d" using dpos by (simp add: field_simps)
    have "(of_nat r :: rat) \<le> of_nat d" using rd by simp
    then have b: "(of_nat r :: rat) / of_nat d \<le> 1" using dpos by (simp add: field_simps)
    show ?thesis using 2 a b by (simp add: rhe val)
  next
    case 3
    then have "(of_nat (2 * r) :: rat) = of_nat d" by simp
    then have "(of_nat r :: rat) / of_nat d = 1 / 2" using dpos by (simp add: field_simps)
    then show ?thesis using 3 by (simp add: rhe val)
  qed
qed

lemma round_half_even_le:
  assumes "0 < d" and "(of_nat n :: rat) / of_nat d \<le> of_nat m"
  shows "round_half_even (n, d) \<le> m"
proof -
  define q where "q = n div d"
  define r where "r = n mod d"
  have n: "n = q * d + r" by (simp add: q_def r_def)
  have rd: "r < d" using assms by (simp add: r_def)
  have dpos: "(0 :: rat) < of_nat d" using assms by simp
  have "(of_nat n :: rat) \<le> of_nat m * of_nat d"
    using assms(2) dpos by (simp add: field_simps)
  then have "(of_nat n :: rat) \<le> of_nat (m * d)" by simp
  then have le: "n \<le> m * d" by (simp only: of_nat_le_iff)
  have "n div d \<le> (m * d) div d"
    using le by (rule div_le_mono)
  then have qm: "q \<le> m"
    using assms(1) by (simp add: q_def)
  have rhe: "round_half_even (n, d) =
      (if 2 * r < d then q else if 2 * r > d then q + 1 else if even q then q else q + 1)"
    by (simp add: round_half_even_def q_def r_def Let_def)
  show ?thesis
  proof (cases "q < m")
    case True
    then show ?thesis by (simp add: rhe)
  next
    case False
    then have "q = m" using qm by simp
    then have "r = 0" using le n assms(1) by simp
    then show ?thesis using \<open>q = m\<close> assms(1) by (simp add: rhe)
  qed
qed

lemma power_int_le_one_exponent:
  assumes "(2 :: rat) powi e \<le> 1"
  shows "e \<le> 0"
proof (rule ccontr)
  assume "\<not> e \<le> 0"
  then have "1 \<le> e" by simp
  then have "(2 :: rat) powi 1 \<le> 2 powi e"
    by (intro power_int_increasing) simp_all
  then show False using assms by simp
qed

lemma truediv_zero_divisor: "truediv a b = Inl ZeroDivisionError \<longleftrightarrow> b = 0"
  by (simp add: truediv_def Let_def)

lemma truediv_fraction:
  assumes "0 < b" and "a \<le> b"
  shows "\<exists>r. truediv a b = Inr r \<and> 0 \<le> r \<and> r \<le> 1
             \<and> \<bar>r - of_nat a / of_nat b\<bar> \<le> 1 / 2 ^ 53"
proof (cases "a = 0")
  case True
  then show ?thesis using assms by (simp add: truediv_def)
next
  case False
  then have apos: "0 < a" by simp
  define q :: rat where "q = of_nat a / of_nat b"
  define E where "E = max (float_exponent a b) (- 1022)"
  obtain n d where s: "scaled a b (52 - E) = (n, d)" by (cases "scaled a b (52 - E)")
  define m where "m = round_half_even (n, d)"
  define r :: rat where "r = of_nat m * 2 powi (E - 52)"
  have qle: "q \<le> 1" using assms by (simp add: q_def)
  have qpos: "0 < q" using assms apos by (simp add: q_def)
  have "(2 :: rat) powi float_exponent a b \<le> 1"
    using float_exponent_bounds(1) [OF apos assms(1)] qle by (simp add: q_def)
  then have "float_exponent a b \<le> 0" by (rule power_int_le_one_exponent)
  then have E0: "E \<le> 0" by (simp add: E_def)
  have dpos: "0 < d" and v: "(of_nat n :: rat) / of_nat d = q * 2 powi (52 - E)"
    using scaled_value [OF assms(1) s] by (simp_all add: q_def)
  have inv: "(2 :: rat) powi (52 - E) * 2 powi (E - 52) = 1"
    by (simp add: power_int_add [symmetric])
  have upos: "(0 :: rat) < 2 powi (E - 52)" by simp
  have err: "\<bar>of_nat m - (of_nat n :: rat) / of_nat d\<bar> \<le> 1 / 2"
    unfolding m_def using dpos by (rule round_half_even_error)
  have "r - q = (of_nat m - of_nat n / of_nat d) * 2 powi (E - 52)"
    using inv by (simp add: r_def v algebra_simps)
  then have "\<bar>r - q\<bar> = \<bar>of_nat m - (of_nat n :: rat) / of_nat d\<bar> * 2 powi (E - 52)"
    using upos by (simp add: abs_mult)
  also have "\<dots> \<le> 1 / 2 * 2 powi (E - 52)"
    using err upos by (intro mult_right_mono) simp_all
  also have "\<dots> \<le> 1 / 2 * 2 powi (- 52)"
    using E0 by (intro mult_left_mono power_int_increasing) simp_all
  also have "\<dots> = 1 / 2 ^ 53"
    by (simp add: power_int_minus)
  finally have close: "\<bar>r - q\<bar> \<le> 1 / 2 ^ 53" .
  have int_pow: "(2 :: rat) powi (52 - E) = of_nat (2 ^ nat (52 - E))"
    using E0 by (simp add: power_int_def)
  have "(of_nat n :: rat) / of_nat d \<le> 2 powi (52 - E)"
    using qle by (simp add: v)
  then have "(of_nat n :: rat) / of_nat d \<le> of_nat (2 ^ nat (52 - E))"
    by (simp only: int_pow)
  then have "m \<le> 2 ^ nat (52 - E)"
    unfolding m_def using dpos by (intro round_half_even_le)
  then have "(of_nat m :: rat) \<le> of_nat (2 ^ nat (52 - E))"
    by (simp only: of_nat_le_iff)
  then have "(of_nat m :: rat) \<le> 2 powi (52 - E)"
    by (simp only: int_pow)
  then have "r \<le> 2 powi (52 - E) * 2 powi (E - 52)"
    unfolding r_def using upos by (intro mult_right_mono) simp_all
  then have r1: "r \<le> 1" by (simp only: inv)
  have r0: "0 \<le> r" by (simp add: r_def)
  have "\<not> 2 powi 1024 \<le> r" using r1 by simp
  then have "truediv a b = Inr r"
    using assms(1) False
    by (simp add: truediv_def Let_def E_def [symmetric] s m_def [symmetric] r_def [symmetric])
  then show ?thesis
    using r0 r1 close by (simp add: q_def)
qed

lemma float_exponent_same:
  assumes "0 < b"
  shows "float_exponent b b = 0"
  using assms by (simp add: float_exponent_def scaled_def)

lemma truediv_same:
  assumes "0 < b"
  shows "truediv b b = Inr 1"
proof -
  have "round_half_even (b * 2 ^ 52, b) = 2 ^ 52"
    using assms by (simp add: round_half_even_def)
  then show ?thesis
    using assms by (simp add: truediv_def float_exponent_same scaled_def)
qed

lemma truediv_zero: "0 < b \<Longrightarrow> truediv 0 b = Inr 0"
  by (simp add: truediv_def)


section \<open>Aggregation\<close>

lemma aggregate_None: "aggregate None = Inl TypeError"
  by (simp add: aggregate_def)

lemma aggregate_no_score:
  "''score'' \<notin> set (df_columns df) \<Longrightarrow> aggregate (Some df) = Inl (KeyError ''score'')"
  by (simp add: aggregate_def df_score_above_half_def bind_exn_def)

lemma aggregate_score:
  assumes "''score'' \<in> set (df_columns df)"
  shows "\<exists>accuracy.
           aggregate (Some df) =
             Inr (accuracy, length (filter score_above_half (df_rows df)), length (df_rows df))
         \<and> (df_rows df = [] \<longrightarrow> accuracy = 0)
         \<and> 0 \<le> accuracy \<and> accuracy \<le> 1
         \<and> \<bar>accuracy - of_nat (length (filter score_above_half (df_rows df)))
                          / of_nat (length (df_rows df))\<bar> \<le> 1 / 2 ^ 53"
proof (cases "df_rows df = []")
  case True
  then show ?thesis
    using assms by (simp add: aggregate_def df_score_above_half_def bind_exn_def)
next
  case False
  let ?c = "length (filter score_above_half (df_rows df))"
  let ?t = "length (df_rows df)"
  have t: "0 < ?t" using False by simp
  have c: "?c \<le> ?t" by simp
  obtain r where r: "truediv ?c ?t = Inr r" "0 \<le> r" "r \<le> 1"
      "\<bar>r - of_nat ?c / of_nat ?t\<bar> \<le> 1 / 2 ^ 53"
    using truediv_fraction [OF t c] by blast
  have "aggregate (Some df) = Inr (r, ?c, ?t)"
    using assms t r(1) by (simp add: aggregate_def df_score_above_half_def bind_exn_def)
  then show ?thesis
    using False r by blast
qed

lemma aggregate_all_correct:
  assumes "''score'' \<in> set (df_columns df)" and "df_rows df \<noteq> []"
    and "list_all score_above_half (df_rows df)"
  shows "aggregate (Some df) = Inr (1, length (df_rows df), length (df_rows df))"
proof -
  have "filter score_above_half (df_rows df) = df_rows df"
    using assms(3) by (simp add: list_all_iff)
  then show ?thesis
    using assms(1,2)
    by (simp add: aggregate_def df_score_above_half_def bind_exn_def truediv_same Let_def)
qed

lemma aggregate_none_correct:
  assumes "''score'' \<in> set (df_columns df)"
    and "filter score_above_half (df_rows df) = []"
  shows "aggregate (Some df) = Inr (0, 0, length (df_rows df))"
  using assms
  by (simp add: aggregate_def df_score_above_half_def bind_exn_def truediv_zero Let_def)

lemma aggregate_no_division_error:
  "aggregate evaluations_df \<noteq> Inl ZeroDivisionError"
    "aggregate evaluations_df \<noteq> Inl OverflowError"
proof -
  have "aggregate evaluations_df \<noteq> Inl ZeroDivisionError
      \<and> aggregate evaluations_df \<noteq> Inl OverflowError"
  proof (cases evaluations_df)
    case None
    then show ?thesis by (simp add: aggregate_None)
  next
    case (Some df)
    show ?thesis
    proof (cases "''score'' \<in> set (df_columns df)")
      case True
      then show ?thesis using aggregate_score [OF True] Some by auto
    next
      case False
      then show ?thesis using Some by (simp add: aggregate_no_score)
    qed
  qed
  then show "aggregate evaluations_df \<noteq> Inl ZeroDivisionError"
    and "aggregate evaluations_df \<noteq> Inl OverflowError"
    by simp_all
qed

lemma print_sample_cases:
  "print_sample None = Inr ()"
  "df_rows df = [] \<Longrightarrow> print_sample (Some df) = Inr ()"
  "set [''score'', ''label'', ''output'', ''expected''] \<subseteq> set (df_columns df) \<Longrightarrow>
     print_sample (Some df) = Inr ()"
  by (simp_all add: print_sample_def df_select_def bind_exn_def)

text \<open>
  When the experiment returns, its table has the column \<^verbatim>\<open>score\<close> and, unless it
  is empty, the three other columns of the printed sample, the pass of the loop stores
  the result with the counts of that table.
\<close>

lemma run_model_result:
  assumes "run_experiment env dataset task_fnc tools_match
             (''MCP tool calling eval '' @ m)
             (''Evaluation of '' @ m @ '' on MCP tool calling'') w = (Inr ex, w')"
    and "get_evaluations ex = Inr (Some df)"
    and "''score'' \<in> set (df_columns df)"
    and "df_rows df = [] \<or>
         set [''label'', ''output'', ''expected''] \<subseteq> set (df_columns df)"
  shows "\<exists>accuracy.
           run_model env dataset m task_fnc w =
             (Inr \<lparr>r_model = m, r_accuracy = accuracy,
                   r_correct = length (filter score_above_half (df_rows df)),
                   r_total = length (df_rows df),
                   r_experiment_id = Some (exp_id ex), r_error = None\<rparr>, w')
         \<and> (df_rows df = [] \<longrightarrow> accuracy = 0)
         \<and> 0 \<le> accuracy \<and> accuracy \<le> 1
         \<and> \<bar>accuracy - of_nat (length (filter score_above_half (df_rows df)))
                          / of_nat (length (df_rows df))\<bar> \<le> 1 / 2 ^ 53"
proof -
  obtain accuracy where a:
    "aggregate (Some df) =
       Inr (accuracy, length (filter score_above_half (df_rows df)), length (df_rows df))"
    "df_rows df = [] \<longrightarrow> accuracy = 0" "0 \<le> accuracy" "accuracy \<le> 1"
    "\<bar>accuracy - of_nat (length (filter score_above_half (df_rows df)))
                   / of_nat (length (df_rows df))\<bar> \<le> 1 / 2 ^ 53"
    using aggregate_score [OF assms(3)] by blast
  have p: "print_sample (Some df) = Inr ()"
    using assms(3,4) by (auto simp: print_sample_cases)
  have "run_model env dataset m task_fnc w =
      (Inr \<lparr>r_model = m, r_accuracy = accuracy,
            r_correct = length (filter score_above_half (df_rows df)),
            r_total = length (df_rows df),
            r_experiment_id = Some (exp_id ex), r_error = None\<rparr>, w')"
    using assms(1,2) a(1) p by (simp add: run_model_def bind_exn_def)
  then show ?thesis
    using a(2-5) by blast
qed

lemma run_model_no_score:
  assumes "run_experiment env dataset task_fnc tools_match
             (''MCP tool calling eval '' @ m)
             (''Evaluation of '' @ m @ '' on MCP tool calling'') w = (Inr ex, w')"
    and "get_evaluations ex = Inr (Some df)"
    and "''score'' \<notin> set (df_columns df)"
  shows "run_model env dataset m task_fnc w = (Inl (KeyError ''score''), w')"
  using assms by (simp add: run_model_def bind_exn_def aggregate_no_score)

lemma run_model_get_evaluations_raises:
  assumes "run_experiment env dataset task_fnc tools_match
             (''MCP tool calling eval '' @ m)
             (''Evaluation of '' @ m @ '' on MCP tool calling'') w = (Inr ex, w')"
    and "get_evaluations ex = Inl e"
  shows "run_model env dataset m task_fnc w = (Inl e, w')"
  using assms by (simp add: run_model_def bind_exn_def)


text \<open>
  Claim C5. The aggregation is due to give, for every table of evaluations, the number
  of its rows as the total, the number of rows with a score above 0.5 as the number of
  correct ones, and their quotient, or 0 for no row, as the accuracy. The source takes
  the column \<^verbatim>\<open>score\<close> without asking whether the table has it. The table of a
  model with three evaluations and none correct comes without that column: there the
  aggregation raises \<^verbatim>\<open>KeyError\<close>, where 0 correct of 3 and the accuracy 0 are
  due. The pass of the loop stores no result, the models after it are not evaluated, and
  the process ends with status 1 by the exception, not by the threshold. The table
  without any row and column raises in the same way, where the accuracy 0 is due.
\<close>

theorem aggregate_raises_without_score_column:
  "aggregate (Some all_wrong_table) = Inl (KeyError ''score'')
   \<and> length (df_rows all_wrong_table) = 3
   \<and> length (filter score_above_half (df_rows all_wrong_table)) = 0
   \<and> evaluate_model all_wrong_env (JList []) \<lparr>ds_id = ''d'', ds_examples = []\<rparr> ''gpt-4o'' []
       = (Inl (KeyError ''score''), [''MCP tool calling eval gpt-4o''])
   \<and> main all_wrong_env [] = (Inl (KeyError ''score''), [''MCP tool calling eval gpt-4o''])
   \<and> script all_wrong_env [] = (1, [''MCP tool calling eval gpt-4o''])
   \<and> aggregate (Some empty_table) = Inl (KeyError ''score'')
   \<and> length (df_rows empty_table) = 0"
  by (simp add: all_wrong_env_def all_wrong_table_def empty_table_def demo_env_def runner_eval)


section \<open>Models of an unknown family\<close>

lemma evaluate_model_unknown:
  "\<not> prefix ''gpt'' m \<Longrightarrow> \<not> prefix ''claude'' m \<Longrightarrow>
   evaluate_model env tools dataset m w = (Inr (unknown_model_result m), w)"
  by (simp add: evaluate_model_def)

lemma evaluate_models_acc:
  "evaluate_models env tools dataset ms rs w =
     (case evaluate_models env tools dataset ms [] w of
        (Inl e, w') \<Rightarrow> (Inl e, w')
      | (Inr rs', w') \<Rightarrow> (Inr (rs @ rs'), w'))"
proof (induction ms arbitrary: rs w)
  case Nil
  then show ?case by simp
next
  case (Cons m ms)
  show ?case
  proof (cases "evaluate_model env tools dataset m w")
    case (Pair res w1)
    show ?thesis
    proof (cases res)
      case (Inl e)
      then show ?thesis using Pair by simp
    next
      case (Inr r)
      have a: "evaluate_models env tools dataset ms (rs @ [r]) w1 =
          (case evaluate_models env tools dataset ms [] w1 of
             (Inl e, w') \<Rightarrow> (Inl e, w')
           | (Inr rs', w') \<Rightarrow> (Inr ((rs @ [r]) @ rs'), w'))"
        by (rule Cons.IH)
      have b: "evaluate_models env tools dataset ms [r] w1 =
          (case evaluate_models env tools dataset ms [] w1 of
             (Inl e, w') \<Rightarrow> (Inl e, w')
           | (Inr rs', w') \<Rightarrow> (Inr ([r] @ rs'), w'))"
        by (rule Cons.IH)
      show ?thesis
        using Pair Inr a b by (simp split: prod.splits sum.splits)
    qed
  qed
qed

lemma evaluate_models_append:
  "evaluate_models env tools dataset (xs @ ys) rs w =
     (case evaluate_models env tools dataset xs rs w of
        (Inl e, w') \<Rightarrow> (Inl e, w')
      | (Inr rs', w') \<Rightarrow> evaluate_models env tools dataset ys rs' w')"
  by (induction xs arbitrary: rs w) (auto split: prod.splits sum.splits)

lemma evaluate_models_skip:
  assumes "\<not> prefix ''gpt'' m" "\<not> prefix ''claude'' m"
  shows "evaluate_models env tools dataset (xs @ m # ys) rs w =
     (case evaluate_models env tools dataset xs rs w of
        (Inl e, w') \<Rightarrow> (Inl e, w')
      | (Inr rs', w') \<Rightarrow>
          evaluate_models env tools dataset ys (rs' @ [unknown_model_result m]) w')"
  using assms
  by (simp add: evaluate_models_append evaluate_model_unknown split: prod.splits sum.splits)

lemma evaluate_model_models_update [simp]:
  "evaluate_model (env\<lparr>MODELS_TO_EVALUATE := ms\<rparr>) = evaluate_model env"
  by (intro ext) (simp add: evaluate_model_def run_model_def)

lemma evaluate_models_models_update [simp]:
  "evaluate_models (env\<lparr>MODELS_TO_EVALUATE := ms\<rparr>) tools dataset l rs w =
   evaluate_models env tools dataset l rs w"
  by (induction l arbitrary: rs w) (simp_all split: prod.splits sum.splits)

lemma all_passed_unknown:
  "all_passed (xs @ unknown_model_result m # ys) thr = all_passed (xs @ ys) thr"
  by (simp add: all_passed_append all_passed_Cons unknown_model_result_def)

lemma gate_after_skip:
  assumes "\<not> prefix ''gpt'' m" "\<not> prefix ''claude'' m"
  shows "(case evaluate_models env tools dataset (xs @ m # ys) [] w of
            (Inl e, w') \<Rightarrow> (Inl e, w')
          | (Inr rs, w') \<Rightarrow> (Inr (if all_passed rs thr then 0 else 1 :: int), w')) =
         (case evaluate_models env tools dataset (xs @ ys) [] w of
            (Inl e, w') \<Rightarrow> (Inl e, w')
          | (Inr rs, w') \<Rightarrow> (Inr (if all_passed rs thr then 0 else 1), w'))"
proof (cases "evaluate_models env tools dataset xs [] w")
  case (Pair res w1)
  have l: "evaluate_models env tools dataset (xs @ m # ys) [] w =
      (case res of
         Inl e \<Rightarrow> (Inl e, w1)
       | Inr rs' \<Rightarrow> evaluate_models env tools dataset ys (rs' @ [unknown_model_result m]) w1)"
    using Pair by (simp add: evaluate_models_skip [OF assms])
  have r: "evaluate_models env tools dataset (xs @ ys) [] w =
      (case res of
         Inl e \<Rightarrow> (Inl e, w1)
       | Inr rs' \<Rightarrow> evaluate_models env tools dataset ys rs' w1)"
    using Pair by (simp add: evaluate_models_append)
  show ?thesis
  proof (cases res)
    case (Inl e)
    then show ?thesis by (simp add: l r)
  next
    case (Inr rs1)
    have a: "evaluate_models env tools dataset ys (rs1 @ [unknown_model_result m]) w1 =
        (case evaluate_models env tools dataset ys [] w1 of
           (Inl e, w') \<Rightarrow> (Inl e, w')
         | (Inr rs', w') \<Rightarrow> (Inr ((rs1 @ [unknown_model_result m]) @ rs'), w'))"
      by (rule evaluate_models_acc)
    have b: "evaluate_models env tools dataset ys rs1 w1 =
        (case evaluate_models env tools dataset ys [] w1 of
           (Inl e, w') \<Rightarrow> (Inl e, w')
         | (Inr rs', w') \<Rightarrow> (Inr (rs1 @ rs'), w'))"
      by (rule evaluate_models_acc)
    show ?thesis
      unfolding l r Inr sum.case a b
      by (simp add: all_passed_unknown split: prod.splits sum.splits)
  qed
qed

lemma main_skip:
  assumes "\<not> prefix ''gpt'' m" "\<not> prefix ''claude'' m"
  shows "main (env\<lparr>MODELS_TO_EVALUATE := xs @ m # ys\<rparr>) w =
         main (env\<lparr>MODELS_TO_EVALUATE := xs @ ys\<rparr>) w"
proof (cases "validate_env_vars env")
  case False
  then show ?thesis by (simp add: main_def)
next
  case True
  show ?thesis
  proof (cases "load_tools env")
    case (Inl e)
    then show ?thesis using True by (simp add: main_def load_tools_def)
  next
    case (Inr tools)
    show ?thesis
    proof (cases "json_len tools")
      case (Inl e)
      then show ?thesis using True Inr by (simp add: main_def load_tools_def)
    next
      case len: (Inr n)
      show ?thesis
      proof (cases "get_dataset env (DATASET_NAME env) w")
        case (Pair res w1)
        show ?thesis
        proof (cases res)
          case (Inl e)
          then show ?thesis using True Inr len Pair by (simp add: main_def load_tools_def)
        next
          case ds: (Inr dataset)
          show ?thesis
            using True Inr len Pair ds
              gate_after_skip [OF assms, where env = env and tools = tools and dataset = dataset
                and xs = xs and ys = ys and w = w1 and thr = "PASS_THRESHOLD env"]
            by (simp add: main_def load_tools_def cong del: sum.case_cong_weak)
        qed
      qed
    qed
  qed
qed


text \<open>
  Claim C4. A model whose name starts neither with \<^verbatim>\<open>gpt\<close> nor with
  \<^verbatim>\<open>claude\<close> is skipped: whatever the providers and the experiment platform are,
  the pass of the loop leaves the world as it was and appends the result with accuracy 0,
  0 correct, 0 in total and the error \<^verbatim>\<open>Unknown model type\<close>. The loop goes on
  with the models after it, and \<^verbatim>\<open>main\<close> and the process end exactly as they do
  when the model is not configured at all.
\<close>

theorem unknown_model_skipped:
  assumes "\<not> prefix ''gpt'' m" and "\<not> prefix ''claude'' m"
  shows "evaluate_model env tools dataset m w =
           (Inr \<lparr>r_model = m, r_accuracy = 0, r_correct = 0, r_total = 0,
                 r_experiment_id = None, r_error = Some ''Unknown model type''\<rparr>, w)
       \<and> evaluate_models env tools dataset (xs @ m # ys) rs w =
           (case evaluate_models env tools dataset xs rs w of
              (Inl e, w') \<Rightarrow> (Inl e, w')
            | (Inr rs', w') \<Rightarrow>
                evaluate_models env tools dataset ys
                  (rs' @ [\<lparr>r_model = m, r_accuracy = 0, r_correct = 0, r_total = 0,
                           r_experiment_id = None, r_error = Some ''Unknown model type''\<rparr>]) w')
       \<and> main (env\<lparr>MODELS_TO_EVALUATE := xs @ m # ys\<rparr>) w =
           main (env\<lparr>MODELS_TO_EVALUATE := xs @ ys\<rparr>) w
       \<and> script (env\<lparr>MODELS_TO_EVALUATE := xs @ m # ys\<rparr>) w =
           script (env\<lparr>MODELS_TO_EVALUATE := xs @ ys\<rparr>) w
       \<and> all_passed (rs1 @ \<lparr>r_model = m, r_accuracy = 0, r_correct = 0, r_total = 0,
                 r_experiment_id = None, r_error = Some ''Unknown model type''\<rparr> # rs2) thr =
           all_passed (rs1 @ rs2) thr"
proof -
  have u: "unknown_model_result m =
      \<lparr>r_model = m, r_accuracy = 0, r_correct = 0, r_total = 0,
       r_experiment_id = None, r_error = Some ''Unknown model type''\<rparr>"
    by (simp add: unknown_model_result_def)
  have one: "evaluate_model env tools dataset m w = (Inr (unknown_model_result m), w)"
    using assms by (rule evaluate_model_unknown)
  have loop: "evaluate_models env tools dataset (xs @ m # ys) rs w =
      (case evaluate_models env tools dataset xs rs w of
         (Inl e, w') \<Rightarrow> (Inl e, w')
       | (Inr rs', w') \<Rightarrow>
           evaluate_models env tools dataset ys (rs' @ [unknown_model_result m]) w')"
    using assms by (rule evaluate_models_skip)
  have m: "main (env\<lparr>MODELS_TO_EVALUATE := xs @ m # ys\<rparr>) w =
      main (env\<lparr>MODELS_TO_EVALUATE := xs @ ys\<rparr>) w"
    using assms by (rule main_skip)
  have s: "script (env\<lparr>MODELS_TO_EVALUATE := xs @ m # ys\<rparr>) w =
      script (env\<lparr>MODELS_TO_EVALUATE := xs @ ys\<rparr>) w"
    by (simp add: script_def m)
  have g: "all_passed (rs1 @ unknown_model_result m # rs2) thr = all_passed (rs1 @ rs2) thr"
    by (rule all_passed_unknown)
  show ?thesis
    using one loop m s g unfolding u by simp
qed

theorem unknown_model_skipped_witness:
  "\<not> prefix ''gpt'' ''llama-3'' \<and> \<not> prefix ''claude'' ''llama-3''
   \<and> evaluate_model demo_env (JList []) \<lparr>ds_id = ''d'', ds_examples = []\<rparr> ''llama-3'' []
       = (Inr \<lparr>r_model = ''llama-3'', r_accuracy = 0, r_correct = 0, r_total = 0,
               r_experiment_id = None, r_error = Some ''Unknown model type''\<rparr>, [])
   \<and> script (demo_env\<lparr>MODELS_TO_EVALUATE := [''gpt-4o''] @ ''llama-3'' # [''claude-3-5-haiku'']\<rparr>) []
       = script (demo_env\<lparr>MODELS_TO_EVALUATE := [''gpt-4o''] @ [''claude-3-5-haiku'']\<rparr>) []
   \<and> script (demo_env\<lparr>MODELS_TO_EVALUATE := [''gpt-4o''] @ [''claude-3-5-haiku'']\<rparr>) []
       = (1, [''MCP tool calling eval gpt-4o'', ''MCP tool calling eval claude-3-5-haiku''])"
proof -
  have h1: "\<not> prefix ''gpt'' ''llama-3''" by simp
  have h2: "\<not> prefix ''claude'' ''llama-3''" by simp
  have run: "script (demo_env\<lparr>MODELS_TO_EVALUATE := [''gpt-4o''] @ [''claude-3-5-haiku'']\<rparr>) []
       = (1, [''MCP tool calling eval gpt-4o'', ''MCP tool calling eval claude-3-5-haiku''])"
    by (simp add: demo_env_def runner_eval)
  show ?thesis
    using unknown_model_skipped [OF h1 h2, of demo_env "JList []"
        "\<lparr>ds_id = ''d'', ds_examples = []\<rparr>" "[]" "[''gpt-4o'']" "[''claude-3-5-haiku'']"]
      h1 h2 run
    by simp
qed


section \<open>The exit status\<close>

lemma main_Inr_cases:
  assumes "main env w = (Inr exit_code, w')"
  shows "\<exists>tools dataset w1 results.
           load_tools env = Inr tools
         \<and> get_dataset env (DATASET_NAME env) w = (Inr dataset, w1)
         \<and> evaluate_models env tools dataset (MODELS_TO_EVALUATE env) [] w1 = (Inr results, w')
         \<and> exit_code = (if all_passed results (PASS_THRESHOLD env) then 0 else 1)"
  using assms
  by (auto simp: main_def split: if_splits sum.splits prod.splits)

text \<open>
  Claim C2, as amended. A run of \<^verbatim>\<open>main\<close> that returns has loaded the tools and the
  dataset and has a result for every configured model. Its exit status is 0 exactly
  when every result without an error has an accuracy that reaches
  \<^verbatim>\<open>PASS_THRESHOLD\<close>, and 1 otherwise. Results with an error do not count: when
  every result has one, the status is 0.
\<close>

theorem exit_code_gate:
  assumes "main env w = (Inr exit_code, w')"
  shows "\<exists>tools dataset w1 results.
           load_tools env = Inr tools
         \<and> get_dataset env (DATASET_NAME env) w = (Inr dataset, w1)
         \<and> evaluate_models env tools dataset (MODELS_TO_EVALUATE env) [] w1 = (Inr results, w')
         \<and> script env w = (exit_code, w')
         \<and> (exit_code = 0 \<longleftrightarrow>
              (\<forall>r \<in> set results. r_error r = None \<longrightarrow> r_accuracy r \<ge> PASS_THRESHOLD env))
         \<and> (exit_code = 1 \<longleftrightarrow>
              \<not> (\<forall>r \<in> set results. r_error r = None \<longrightarrow> r_accuracy r \<ge> PASS_THRESHOLD env))
         \<and> ((\<forall>r \<in> set results. r_error r \<noteq> None) \<longrightarrow> exit_code = 0)"
proof -
  obtain tools dataset w1 results where
    t: "load_tools env = Inr tools" and
    d: "get_dataset env (DATASET_NAME env) w = (Inr dataset, w1)" and
    e: "evaluate_models env tools dataset (MODELS_TO_EVALUATE env) [] w1 = (Inr results, w')" and
    c: "exit_code = (if all_passed results (PASS_THRESHOLD env) then 0 else 1)"
    using main_Inr_cases [OF assms] by blast
  have s: "script env w = (exit_code, w')"
    using assms by (simp add: script_def)
  have z: "exit_code = 0 \<longleftrightarrow>
      (\<forall>r \<in> set results. r_error r = None \<longrightarrow> r_accuracy r \<ge> PASS_THRESHOLD env)"
    using c by (simp add: all_passed_iff)
  have o: "exit_code = 1 \<longleftrightarrow>
      \<not> (\<forall>r \<in> set results. r_error r = None \<longrightarrow> r_accuracy r \<ge> PASS_THRESHOLD env)"
    using c by (auto simp: all_passed_iff)
  have a: "(\<forall>r \<in> set results. r_error r \<noteq> None) \<longrightarrow> exit_code = 0"
    using z by blast
  show ?thesis
    using t d e s z o a by blast
qed

theorem exit_code_gate_witness:
  "main demo_env [] =
     (Inr 1, [''MCP tool calling eval gpt-4o'', ''MCP tool calling eval claude-3-5-haiku''])
   \<and> script demo_env [] =
     (1, [''MCP tool calling eval gpt-4o'', ''MCP tool calling eval claude-3-5-haiku''])"
proof -
  have h: "main demo_env [] =
     (Inr 1, [''MCP tool calling eval gpt-4o'', ''MCP tool calling eval claude-3-5-haiku''])"
    by (simp add: demo_env_def runner_eval)
  show ?thesis
    using exit_code_gate [OF h] h by blast
qed

text \<open>
  With two configured models, both of an unknown family, no model is evaluated, every
  result carries an error, and the process ends with status 0, not 1.
\<close>

theorem exit_code_all_errored_counterexample:
  "script (demo_env\<lparr>MODELS_TO_EVALUATE := [''llama-3'', ''mistral-7b'']\<rparr>) [] = (0, [])
   \<and> fst (script (demo_env\<lparr>MODELS_TO_EVALUATE := [''llama-3'', ''mistral-7b'']\<rparr>) []) \<noteq> 1
   \<and> evaluate_models demo_env (JList []) \<lparr>ds_id = DATASET_NAME demo_env, ds_examples = []\<rparr>
       [''llama-3'', ''mistral-7b''] [] []
     = (Inr [\<lparr>r_model = ''llama-3'', r_accuracy = 0, r_correct = 0, r_total = 0,
              r_experiment_id = None, r_error = Some ''Unknown model type''\<rparr>,
            \<lparr>r_model = ''mistral-7b'', r_accuracy = 0, r_correct = 0, r_total = 0,
              r_experiment_id = None, r_error = Some ''Unknown model type''\<rparr>], [])"
  by (simp add: demo_env_def runner_eval)


section \<open>What the provider tasks return\<close>

lemma openai_tool_calls_Cons:
  "openai_tool_calls (OpenAIResponse (message # others)) =
     Inr (case cm_tool_calls message of
            None \<Rightarrow> []
          | Some calls \<Rightarrow> map function_name (take 1 calls))"
  by (simp add: openai_tool_calls_def split: option.splits list.splits)

lemma create_openai_task_response:
  assumes "transform_tools_to_openai_format_value tools = Inr tools_arg"
    and "create (openai_request_of system_prompt model_name tools_arg ex) w = (Inr response, w')"
  shows "create_openai_task create system_prompt model_name tools ex w =
           (openai_tool_calls response, w')"
  using assms by (simp add: create_openai_task_def)

text \<open>
  Claim C7, as amended. The task reads the first choice of the completion. From a
  completion with at least one choice, whose first choice carries no tool calls (none at
  all, or an empty list), the OpenAI task returns the empty list; from one whose first
  choice carries tool calls it returns the one-element list with the function name of
  the first call, whatever calls follow it. This is what the task returns when the
  provider answers the request with that completion.
\<close>

theorem openai_first_tool_call_only:
  "openai_tool_calls (OpenAIResponse (message # others)) =
     Inr (case cm_tool_calls message of
            None \<Rightarrow> []
          | Some calls \<Rightarrow> map function_name (take 1 calls))
   \<and> (cm_tool_calls message = None \<or> cm_tool_calls message = Some [] \<longrightarrow>
        openai_tool_calls (OpenAIResponse (message # others)) = Inr [])
   \<and> (cm_tool_calls message = Some (call # calls) \<longrightarrow>
        openai_tool_calls (OpenAIResponse (message # others)) = Inr [function_name call])
   \<and> (transform_tools_to_openai_format_value tools = Inr tools_arg \<longrightarrow>
      create (openai_request_of system_prompt model_name tools_arg ex) w
        = (Inr (OpenAIResponse (message # others)), w') \<longrightarrow>
      create_openai_task create system_prompt model_name tools ex w =
        (Inr (case cm_tool_calls message of
                None \<Rightarrow> []
              | Some calls \<Rightarrow> map function_name (take 1 calls)), w'))"
proof -
  have a: "openai_tool_calls (OpenAIResponse (message # others)) =
     Inr (case cm_tool_calls message of
            None \<Rightarrow> []
          | Some calls \<Rightarrow> map function_name (take 1 calls))"
    by (rule openai_tool_calls_Cons)
  have b: "cm_tool_calls message = None \<or> cm_tool_calls message = Some [] \<longrightarrow>
        openai_tool_calls (OpenAIResponse (message # others)) = Inr []"
    by (auto simp: a)
  have c: "cm_tool_calls message = Some (call # calls) \<longrightarrow>
        openai_tool_calls (OpenAIResponse (message # others)) = Inr [function_name call]"
    by (simp add: a)
  have d: "transform_tools_to_openai_format_value tools = Inr tools_arg \<longrightarrow>
      create (openai_request_of system_prompt model_name tools_arg ex) w
        = (Inr (OpenAIResponse (message # others)), w') \<longrightarrow>
      create_openai_task create system_prompt model_name tools ex w =
        (Inr (case cm_tool_calls message of
                None \<Rightarrow> []
              | Some calls \<Rightarrow> map function_name (take 1 calls)), w')"
    using create_openai_task_response [of tools tools_arg create system_prompt model_name ex w
        "OpenAIResponse (message # others)" w'] a
    by simp
  show ?thesis
    using a b c d by blast
qed

theorem openai_first_tool_call_only_witness:
  "transform_tools_to_openai_format_value (JList []) = Inr (JList [])
   \<and> openai_tool_calls (OpenAIResponse
        [CompletionMessage None
           (Some [ToolCall ''call_1'' ''search-actors'' ''{}'',
                  ToolCall ''call_2'' ''fetch-actor-details'' ''{}''])])
       = Inr [''search-actors'']
   \<and> create_openai_task
        (\<lambda>request w. (Inr (OpenAIResponse
           [CompletionMessage None
              (Some [ToolCall ''call_1'' ''search-actors'' ''{}'',
                     ToolCall ''call_2'' ''fetch-actor-details'' ''{}''])]), Suc w))
        ''Pick the right tool.'' ''gpt-4o'' (JList [])
        \<lparr>ex_input = [''question'' \<mapsto> ''Find an actor''], ex_expected = Map.empty\<rparr> (0 :: nat)
       = (Inr [''search-actors''], 1)"
proof -
  have t: "transform_tools_to_openai_format_value (JList []) = Inr (JList [])"
    by (simp add: transform_tools_to_openai_format_value_def json_iter_def bind_exn_def)
  show ?thesis
    using t openai_first_tool_call_only
      [of "CompletionMessage None
             (Some [ToolCall ''call_1'' ''search-actors'' ''{}'',
                    ToolCall ''call_2'' ''fetch-actor-details'' ''{}''])" "[]"
          "ToolCall ''call_1'' ''search-actors'' ''{}''"
          "[ToolCall ''call_2'' ''fetch-actor-details'' ''{}'']"
          "JList []" "JList []"
          "\<lambda>request w. (Inr (OpenAIResponse
             [CompletionMessage None
                (Some [ToolCall ''call_1'' ''search-actors'' ''{}'',
                       ToolCall ''call_2'' ''fetch-actor-details'' ''{}''])]), Suc w)"
          "''Pick the right tool.''" "''gpt-4o''"
          "\<lparr>ex_input = [''question'' \<mapsto> ''Find an actor''], ex_expected = Map.empty\<rparr>"
          "0 :: nat" "1 :: nat"]
    by simp
qed

text \<open>
  A completion without any choice contains no tool call, and the task does not return
  the empty list for it: \<^verbatim>\<open>response.choices[0]\<close> raises \<^verbatim>\<open>IndexError\<close>.
\<close>

theorem openai_no_choice_counterexample:
  "choices (OpenAIResponse []) = []
   \<and> openai_tool_calls (OpenAIResponse []) = Inl IndexError
   \<and> openai_tool_calls (OpenAIResponse []) \<noteq> Inr []
   \<and> create_openai_task no_choice_create ''Pick the right tool.'' ''gpt-4o'' (JList [])
        \<lparr>ex_input = [''question'' \<mapsto> ''Find an actor''], ex_expected = Map.empty\<rparr> 0
       = (Inl IndexError, 1)"
  by (simp add: openai_tool_calls_def create_openai_task_def no_choice_create_def
      transform_tools_to_openai_format_value_def json_iter_def bind_exn_def)

lemma anthropic_tool_calls_acc:
  "anthropic_tool_calls blocks acc =
     Inr (acc @ map tool_use_name (filter (\<lambda>b. content_type b = ''tool_use'') blocks))"
proof (induction blocks arbitrary: acc)
  case Nil
  then show ?case by simp
next
  case (Cons b blocks)
  then show ?case by (cases b) (simp_all add: bind_exn_def)
qed

lemma create_anthropic_task_response:
  assumes "transform_tools_to_antrophic_format_value tools = Inr tools_arg"
    and "create (anthropic_request_of system_prompt model_name tools_arg ex) w
           = (Inr response, w')"
  shows "create_anthropic_task create system_prompt model_name tools ex w =
           (anthropic_tool_calls (response_content response) [], w')"
  using assms by (simp add: create_anthropic_task_def)

text \<open>
  Claim C8. The Anthropic task never raises on a response: it returns the names of all
  the content blocks of type \<^verbatim>\<open>tool_use\<close>, in the order of the response, and
  nothing else. Its request carries the system prompt in the field \<^verbatim>\<open>system\<close>, and
  its message list is the one user message with the question.
\<close>

theorem anthropic_all_tool_uses:
  "anthropic_tool_calls blocks [] =
     Inr (map tool_use_name (filter (\<lambda>b. content_type b = ''tool_use'') blocks))
   \<and> an_system (anthropic_request_of system_prompt model_name tools_arg ex) = system_prompt
   \<and> an_messages (anthropic_request_of system_prompt model_name tools_arg ex) =
       [ChatMessage ''user'' (ex_input ex ''question'')]
   \<and> (transform_tools_to_antrophic_format_value tools = Inr tools_arg \<longrightarrow>
      create (anthropic_request_of system_prompt model_name tools_arg ex) w
        = (Inr response, w') \<longrightarrow>
      create_anthropic_task create system_prompt model_name tools ex w =
        (Inr (map tool_use_name
               (filter (\<lambda>b. content_type b = ''tool_use'') (response_content response))), w'))"
proof -
  have a: "anthropic_tool_calls blocks [] =
     Inr (map tool_use_name (filter (\<lambda>b. content_type b = ''tool_use'') blocks))"
    by (simp add: anthropic_tool_calls_acc)
  have b: "an_system (anthropic_request_of system_prompt model_name tools_arg ex) = system_prompt"
    by (simp add: anthropic_request_of_def)
  have c: "an_messages (anthropic_request_of system_prompt model_name tools_arg ex) =
       [ChatMessage ''user'' (ex_input ex ''question'')]"
    by (simp add: anthropic_request_of_def)
  have d: "transform_tools_to_antrophic_format_value tools = Inr tools_arg \<longrightarrow>
      create (anthropic_request_of system_prompt model_name tools_arg ex) w
        = (Inr response, w') \<longrightarrow>
      create_anthropic_task create system_prompt model_name tools ex w =
        (Inr (map tool_use_name
               (filter (\<lambda>b. content_type b = ''tool_use'') (response_content response))), w')"
    using create_anthropic_task_response
      [of tools tools_arg create system_prompt model_name ex w response w']
    by (simp add: anthropic_tool_calls_acc)
  show ?thesis
    using a b c d by blast
qed

theorem anthropic_all_tool_uses_witness:
  "transform_tools_to_antrophic_format_value (JList []) = Inr (JList [])
   \<and> anthropic_tool_calls
        [TextBlock ''I will look it up.'',
         ToolUseBlock ''tu_1'' ''search-actors'' (JDict []),
         ThinkingBlock ''...'',
         ToolUseBlock ''tu_2'' ''fetch-actor-details'' (JDict [])] []
       = Inr [''search-actors'', ''fetch-actor-details'']
   \<and> create_anthropic_task
        (\<lambda>request w. (Inr (AnthropicResponse
           [TextBlock ''I will look it up.'',
            ToolUseBlock ''tu_1'' ''search-actors'' (JDict []),
            ThinkingBlock ''...'',
            ToolUseBlock ''tu_2'' ''fetch-actor-details'' (JDict [])]), Suc w))
        ''Pick the right tool.'' ''claude-3-5-haiku'' (JList [])
        \<lparr>ex_input = [''question'' \<mapsto> ''Find an actor''], ex_expected = Map.empty\<rparr> (0 :: nat)
       = (Inr [''search-actors'', ''fetch-actor-details''], 1)"
proof -
  have t: "transform_tools_to_antrophic_format_value (JList []) = Inr (JList [])"
    by (simp add: transform_tools_to_antrophic_format_value_def bind_exn_def)
  show ?thesis
    using t anthropic_all_tool_uses
      [of "[TextBlock ''I will look it up.'',
            ToolUseBlock ''tu_1'' ''search-actors'' (JDict []),
            ThinkingBlock ''...'',
            ToolUseBlock ''tu_2'' ''fetch-actor-details'' (JDict [])]"
          "''Pick the right tool.''" "''claude-3-5-haiku''" "JList []"
          "\<lparr>ex_input = [''question'' \<mapsto> ''Find an actor''], ex_expected = Map.empty\<rparr>"
          "JList []"
          "\<lambda>request w. (Inr (AnthropicResponse
             [TextBlock ''I will look it up.'',
              ToolUseBlock ''tu_1'' ''search-actors'' (JDict []),
              ThinkingBlock ''...'',
              ToolUseBlock ''tu_2'' ''fetch-actor-details'' (JDict [])]), Suc w)"
          "0 :: nat"
          "AnthropicResponse
             [TextBlock ''I will look it up.'',
              ToolUseBlock ''tu_1'' ''search-actors'' (JDict []),
              ThinkingBlock ''...'',
              ToolUseBlock ''tu_2'' ''fetch-actor-details'' (JDict [])]"
          "1 :: nat"]
    by simp
qed


section \<open>Exceptions of a provider call\<close>

text \<open>
  Nothing in these sources catches the exception of a provider call. The task raises
  it; and when \<^verbatim>\<open>run_experiment\<close> raises, the pass of the loop raises, the loop
  ends there and \<^verbatim>\<open>main\<close> raises, without a result for any model. What
  \<^verbatim>\<open>run_experiment\<close> does with an exception of the task is decided by the Phoenix
  library.
\<close>

lemma create_openai_task_raises:
  assumes "transform_tools_to_openai_format_value tools = Inr tools_arg"
    and "create (openai_request_of system_prompt model_name tools_arg ex) w = (Inl e, w')"
  shows "create_openai_task create system_prompt model_name tools ex w = (Inl e, w')"
  using assms by (simp add: create_openai_task_def)

lemma create_anthropic_task_raises:
  assumes "transform_tools_to_antrophic_format_value tools = Inr tools_arg"
    and "create (anthropic_request_of system_prompt model_name tools_arg ex) w = (Inl e, w')"
  shows "create_anthropic_task create system_prompt model_name tools ex w = (Inl e, w')"
  using assms by (simp add: create_anthropic_task_def)

lemma run_model_raises:
  assumes "run_experiment env dataset task_fnc tools_match
             (''MCP tool calling eval '' @ m)
             (''Evaluation of '' @ m @ '' on MCP tool calling'') w = (Inl e, w')"
  shows "run_model env dataset m task_fnc w = (Inl e, w')"
  using assms by (simp add: run_model_def)

lemma evaluate_models_raises:
  assumes "evaluate_model env tools dataset m w = (Inl e, w')"
  shows "evaluate_models env tools dataset (m # ms) rs w = (Inl e, w')"
  using assms by simp


section \<open>The schema transforms and the store\<close>

lemma val_below_mono: "val_below n v \<Longrightarrow> n \<le> m \<Longrightarrow> val_below m v"
  by (cases v) auto

lemma wf_from_iff:
  "wf_from n h \<longleftrightarrow> (\<forall>i < length h. list_all (val_below (n + i)) (obj_vals (h ! i)))"
proof (induction h arbitrary: n)
  case Nil
  then show ?case by simp
next
  case (Cons obj h)
  show ?case
    by (simp add: Cons.IH All_less_Suc2 [where n = "length h"])
qed

lemma wf_heap_iff:
  "wf_heap h \<longleftrightarrow> (\<forall>a < length h. list_all (val_below a) (obj_vals (h ! a)))"
  by (simp add: wf_heap_def wf_from_iff)

lemma wf_heap_vals:
  "wf_heap h \<Longrightarrow> a < length h \<Longrightarrow> v \<in> set (obj_vals (h ! a)) \<Longrightarrow> val_below a v"
  by (auto simp: wf_heap_iff list_all_iff)

lemma wf_heap_snoc:
  "wf_heap (h @ [obj]) \<longleftrightarrow> wf_heap h \<and> list_all (val_below (length h)) (obj_vals obj)"
  by (auto simp: wf_heap_iff nth_append less_Suc_eq)

lemma wf_heap_update:
  assumes "wf_heap h" "list_all (val_below b) (obj_vals obj)"
  shows "wf_heap (h[b := obj])"
proof (cases "b < length h")
  case True
  then show ?thesis using assms by (auto simp: wf_heap_iff nth_list_update)
next
  case False
  then have "h[b := obj] = h" by (intro list_update_beyond) simp
  then show ?thesis using assms by simp
qed

lemma those_map_Some:
  "those (map f xs) = Some ys \<longleftrightarrow> list_all2 (\<lambda>x y. f x = Some y) xs ys"
proof (induction xs arbitrary: ys)
  case Nil
  then show ?case by auto
next
  case (Cons x xs)
  show ?case
    by (cases ys) (auto simp: Cons.IH split: option.splits)
qed

lemma those_map_the:
  "\<forall>x \<in> set xs. f x \<noteq> None \<Longrightarrow> those (map f xs) = Some (map (\<lambda>x. the (f x)) xs)"
  by (induction xs) auto

lemma those_map_cong:
  "(\<And>x. x \<in> set xs \<Longrightarrow> f x = g x) \<Longrightarrow> those (map f xs) = those (map g xs)"
  by (induction xs) (auto split: option.splits)

lemma reaches_ref: "reaches h v b \<Longrightarrow> \<exists>a. v = PRef a \<and> a < length h"
  by (induction rule: reaches.induct) auto

lemma reaches_le:
  assumes "wf_heap h"
  shows "reaches h v b \<Longrightarrow> \<exists>a. v = PRef a \<and> b \<le> a"
proof (induction rule: reaches.induct)
  case (here a)
  then show ?case by simp
next
  case (step a v b)
  have "val_below a v" using assms step.hyps by (auto intro: wf_heap_vals)
  then show ?case using step.IH by auto
qed

lemma reaches_in_range: "reaches h v b \<Longrightarrow> b < length h"
  by (induction rule: reaches.induct) auto

lemma reaches_cases_ref:
  "reaches h (PRef a) b \<Longrightarrow> b = a \<or> (\<exists>v \<in> set (obj_vals (h ! a)). reaches h v b)"
  by (erule reaches.cases) auto

text \<open>Frame: a value reads only the objects it reaches.\<close>

lemma reify_frame:
  assumes "wf_heap g" and "length g \<le> length g'"
  shows "val_ok g v \<Longrightarrow> (\<And>a. reaches g v a \<Longrightarrow> g' ! a = g ! a) \<Longrightarrow>
         reify k g' v = reify k g v"
proof (induction k arbitrary: v)
  case 0
  then show ?case by (cases v) auto
next
  case (Suc k)
  show ?case
  proof (cases v)
    case (PRef a)
    have a: "a < length g" using Suc.prems PRef by simp
    have same: "g' ! a = g ! a" using Suc.prems(2) PRef a by (auto intro: reaches.here)
    have kids: "reify k g' x = reify k g x" if "x \<in> set (obj_vals (g ! a))" for x
    proof (rule Suc.IH)
      have "val_below a x" using assms(1) a that by (rule wf_heap_vals)
      then show "val_ok g x" using a by (auto intro: val_below_mono)
    next
      fix b assume "reaches g x b"
      then have "reaches g (PRef a) b" using a that by (auto intro: reaches.step)
      then show "g' ! b = g ! b" using Suc.prems(2) PRef by simp
    qed
    show ?thesis
    proof (cases "g ! a")
      case (PList vs)
      have "those (map (reify k g') vs) = those (map (reify k g) vs)"
        using kids PList by (intro those_map_cong) simp
      then show ?thesis using PRef a same PList assms(2) by (simp add: heap_get_def)
    next
      case (PDict kvs)
      have "those (map (reify k g') (map snd kvs)) = those (map (reify k g) (map snd kvs))"
        using kids PDict by (intro those_map_cong) simp
      then show ?thesis using PRef a same PDict assms(2) by (simp add: heap_get_def)
    qed
  qed auto
qed

lemma reaches_frame:
  assumes "wf_heap g"
  shows "reaches g' v b \<Longrightarrow> val_ok g v \<Longrightarrow> (\<And>a. reaches g v a \<Longrightarrow> g' ! a = g ! a) \<Longrightarrow>
         reaches g v b"
proof (induction rule: reaches.induct)
  case (here a)
  then show ?case by (auto intro: reaches.here)
next
  case (step a v b)
  have a: "a < length g" using step.prems by simp
  have same: "g' ! a = g ! a" using step.prems(2) a by (auto intro: reaches.here)
  have v: "v \<in> set (obj_vals (g ! a))" using step.hyps same by simp
  have "val_below a v" using assms a v by (rule wf_heap_vals)
  then have ok: "val_ok g v" using a by (auto intro: val_below_mono)
  have "reaches g v b"
  proof (rule step.IH [OF ok])
    fix c assume "reaches g v c"
    then have "reaches g (PRef a) c" using a v by (auto intro: reaches.step)
    then show "g' ! c = g ! c" using step.prems(2) by simp
  qed
  then show ?case using a v by (auto intro: reaches.step)
qed

text \<open>Enough fuel: in a well-founded store every value has a JSON reading.\<close>

lemma those_map_not_None:
  "(\<And>x. x \<in> set xs \<Longrightarrow> f x \<noteq> None) \<Longrightarrow> those (map f xs) \<noteq> None"
  by (induction xs) (auto split: option.splits)

lemma reify_fuel_any:
  assumes "wf_heap g"
  shows "val_ok g v \<Longrightarrow> val_below m v \<Longrightarrow> val_below n v \<Longrightarrow>
         reify m g v = reify n g v \<and> reify m g v \<noteq> None"
proof (induction m arbitrary: n v)
  case 0
  then show ?case by (cases v) auto
next
  case (Suc m)
  show ?case
  proof (cases v)
    case (PRef a)
    have a: "a < length g" and am: "a \<le> m" using Suc.prems PRef by auto
    obtain n' where n: "n = Suc n'" "a \<le> n'" using Suc.prems PRef by (cases n) auto
    have kid: "reify m g x = reify n' g x \<and> reify m g x \<noteq> None"
      if "x \<in> set (obj_vals (g ! a))" for x
    proof (rule Suc.IH)
      have b: "val_below a x" using assms a that by (rule wf_heap_vals)
      show "val_ok g x" using b a by (auto intro: val_below_mono)
      show "val_below m x" using b am by (rule val_below_mono)
      show "val_below n' x" using b n(2) by (rule val_below_mono)
    qed
    have eq: "those (map (reify m g) (obj_vals (g ! a))) =
              those (map (reify n' g) (obj_vals (g ! a)))"
      using kid by (intro those_map_cong) simp
    have "reify m g x \<noteq> None" if "x \<in> set (obj_vals (g ! a))" for x
      using kid that by blast
    then have ne: "those (map (reify m g) (obj_vals (g ! a))) \<noteq> None"
      by (rule those_map_not_None)
    show ?thesis
    proof (cases "g ! a")
      case (PList vs)
      then show ?thesis using eq ne PRef a n by (simp add: heap_get_def)
    next
      case (PDict kvs)
      then show ?thesis using eq ne PRef a n by (simp add: heap_get_def)
    qed
  qed auto
qed

lemma py_reify_Some: "wf_heap g \<Longrightarrow> val_ok g v \<Longrightarrow> py_reify g v = Some (json_of g v)"
  using reify_fuel_any [of g v "length g" "length g"]
  by (auto simp: py_reify_def json_of_def)

lemma reify_fuel:
  assumes "wf_heap g" "val_ok g v" "val_below m v"
  shows "reify m g v = Some (json_of g v)"
  using reify_fuel_any [OF assms(1) assms(2) assms(3) assms(2)] py_reify_Some [OF assms(1) assms(2)]
  by (simp add: py_reify_def)

lemma json_of_atom [simp]:
  "json_of g PNone = JNull" "json_of g (PBool b) = JBool b" "json_of g (PInt i) = JInt i"
  "json_of g (PFloat x) = JFloat x" "json_of g (PStr s) = JStr s"
  by (simp_all add: json_of_def py_reify_def)

lemma zip_fst_map_snd:
  "zip (map fst kvs) (map f (map snd kvs)) = map (\<lambda>kv. (fst kv, f (snd kv))) kvs"
  by (induction kvs) auto

lemma json_of_ref:
  assumes "wf_heap g" "a < length g"
  shows "json_of g (PRef a) =
     (case g ! a of
        PList vs \<Rightarrow> JList (map (json_of g) vs)
      | PDict kvs \<Rightarrow> JDict (map (\<lambda>kv. (fst kv, json_of g (snd kv))) kvs))"
proof -
  have kids: "reify a g x = Some (json_of g x)" if "x \<in> set (obj_vals (g ! a))" for x
  proof (rule reify_fuel [OF assms(1)])
    show b: "val_below a x" using assms that by (rule wf_heap_vals)
    show "val_ok g x" using b assms(2) by (auto intro: val_below_mono)
  qed
  have all: "those (map (reify a g) xs) = Some (map (json_of g) xs)"
    if "set xs \<subseteq> set (obj_vals (g ! a))" for xs
    using that by (induction xs) (auto simp: kids)
  have top: "reify (Suc a) g (PRef a) = Some (json_of g (PRef a))"
    using assms by (intro reify_fuel) auto
  show ?thesis
  proof (cases "g ! a")
    case (PList vs)
    have "those (map (reify a g) vs) = Some (map (json_of g) vs)"
      using all [of vs] PList by simp
    then have "reify (Suc a) g (PRef a) = Some (JList (map (json_of g) vs))"
      using assms(2) PList by (simp add: heap_get_def)
    then show ?thesis using top PList by simp
  next
    case (PDict kvs)
    have "those (map (reify a g) (map snd kvs)) = Some (map (json_of g) (map snd kvs))"
      using all [of "map snd kvs"] PDict by simp
    then have "reify (Suc a) g (PRef a) =
        Some (JDict (zip (map fst kvs) (map (json_of g) (map snd kvs))))"
      using assms(2) PDict by (simp add: heap_get_def del: map_map)
    then show ?thesis using top PDict by (simp only: zip_fst_map_snd) simp
  qed
qed

lemma json_of_frame:
  assumes "wf_heap g" "length g \<le> length g'" "val_ok g v"
    and "\<And>a. reaches g v a \<Longrightarrow> g' ! a = g ! a"
  shows "json_of g' v = json_of g v" and "py_reify g' v = Some (json_of g v)"
proof -
  have "reify (length g') g' v = reify (length g') g v"
    using assms by (intro reify_frame) auto
  also have "\<dots> = Some (json_of g v)"
    using assms by (intro reify_fuel) (auto intro: val_below_mono)
  finally show "py_reify g' v = Some (json_of g v)" by (simp add: py_reify_def)
  then show "json_of g' v = json_of g v" by (simp add: json_of_def)
qed

lemma json_of_append:
  assumes "wf_heap g" "val_ok g v"
  shows "json_of (g @ ext) v = json_of g v"
proof (rule json_of_frame(1) [OF assms(1) _ assms(2)])
  fix a assume "reaches g v a"
  then have "a < length g" by (rule reaches_in_range)
  then show "(g @ ext) ! a = g ! a" by (simp add: nth_append)
qed simp

lemma map_of_map_snd:
  "map_of (map (\<lambda>kv. (fst kv, f (snd kv))) kvs) key = map_option f (map_of kvs key)"
  by (induction kvs) auto

lemma map_of_val_below:
  assumes "wf_heap h" "a < length h" "h ! a = PDict kvs" "map_of kvs key = Some x"
  shows "val_below a x" "val_ok h x"
proof -
  have "x \<in> set (obj_vals (h ! a))"
    using assms(3,4) by (auto dest: map_of_SomeD intro: rev_image_eqI)
  then show "val_below a x" using assms(1,2) by (intro wf_heap_vals)
  then show "val_ok h x" using assms(2) by (auto intro: val_below_mono)
qed

lemma py_subscript_sim:
  assumes "wf_heap h" "val_ok h tool"
  shows "case py_subscript h tool key of
           Inl e \<Rightarrow> json_subscript (json_of h tool) key = Inl e
         | Inr x \<Rightarrow> json_subscript (json_of h tool) key = Inr (json_of h x) \<and> val_ok h x"
proof (cases tool)
  case (PRef a)
  then have a: "a < length h" using assms by simp
  show ?thesis
  proof (cases "h ! a")
    case (PList vs)
    then show ?thesis using PRef a assms
      by (simp add: py_subscript_def heap_get_def json_subscript_def json_of_ref)
  next
    case (PDict kvs)
    show ?thesis
    proof (cases "map_of kvs key")
      case None
      then show ?thesis using PRef a assms PDict
        by (simp add: py_subscript_def heap_get_def json_subscript_def json_of_ref
              map_of_map_snd)
    next
      case (Some x)
      have "val_ok h x" using assms(1) a PDict Some by (rule map_of_val_below)
      then show ?thesis using PRef a assms PDict Some
        by (simp add: py_subscript_def heap_get_def json_subscript_def json_of_ref
              map_of_map_snd)
    qed
  qed
qed (simp_all add: py_subscript_def json_subscript_def)

lemma openai_tool_obj_frame:
  "openai_tool_obj h tool = (r, h1) \<Longrightarrow> prefix h h1"
  by (auto simp: openai_tool_obj_def alloc_def Let_def split: sum.splits)

lemma openai_tools_loop_frame:
  "openai_tools_loop h ts acc = (r, h') \<Longrightarrow> prefix h h'"
proof (induction ts arbitrary: h acc)
  case Nil
  then show ?case by simp
next
  case (Cons t ts)
  obtain r1 h1 where t: "openai_tool_obj h t = (r1, h1)" by (cases "openai_tool_obj h t")
  then have p: "prefix h h1" by (rule openai_tool_obj_frame)
  show ?case
  proof (cases r1)
    case (Inl e)
    then show ?thesis using Cons.prems t p by simp
  next
    case (Inr entry)
    then have "openai_tools_loop h1 ts (acc @ [entry]) = (r, h')" using Cons.prems t by simp
    then have "prefix h1 h'" by (rule Cons.IH)
    then show ?thesis using p by (rule prefix_order.trans [rotated])
  qed
qed

lemma transform_openai_frame:
  "transform_tools_to_openai_format h tools = (r, h') \<Longrightarrow> prefix h h'"
  by (auto simp: transform_tools_to_openai_format_def alloc_def Let_def
      split: sum.splits prod.splits dest!: openai_tools_loop_frame)

lemma openai_tool_obj_sim:
  assumes "wf_heap h" "val_ok h tool" "openai_tool_obj h tool = (r, h1)"
  shows "wf_heap h1 \<and>
    (case openai_tool (json_of h tool) of
       Inl e \<Rightarrow> r = Inl e
     | Inr j \<Rightarrow> \<exists>entry. r = Inr entry \<and> val_ok h1 entry \<and> json_of h1 entry = j)"
proof -
  note n = py_subscript_sim [OF assms(1,2), of "''name''"]
  note d = py_subscript_sim [OF assms(1,2), of "''description''"]
  note p = py_subscript_sim [OF assms(1,2), of "''inputSchema''"]
  show ?thesis
  proof (cases "py_subscript h tool ''name''")
    case (Inl e)
    then show ?thesis using n assms by (simp add: openai_tool_obj_def openai_tool_def bind_exn_def)
  next
    case name: (Inr name)
    show ?thesis
    proof (cases "py_subscript h tool ''description''")
      case (Inl e)
      then show ?thesis using n d name assms
        by (simp add: openai_tool_obj_def openai_tool_def bind_exn_def)
    next
      case descr: (Inr description)
      show ?thesis
      proof (cases "py_subscript h tool ''inputSchema''")
        case (Inl e)
        then show ?thesis using n d p name descr assms
          by (simp add: openai_tool_obj_def openai_tool_def bind_exn_def)
      next
        case params: (Inr parameters)
        let ?inner = "PDict [(''name'', name), (''description'', description),
                             (''parameters'', parameters)]"
        let ?outer = "PDict [(''type'', PStr ''function''), (''function'', PRef (length h))]"
        have h1: "h1 = h @ [?inner, ?outer]" and r: "r = Inr (PRef (Suc (length h)))"
          using assms(3) name descr params by (simp_all add: openai_tool_obj_def alloc_def)
        have ok: "val_ok h name" "val_ok h description" "val_ok h parameters"
          using n d p name descr params by simp_all
        have wf1: "wf_heap (h @ [?inner])"
          using assms(1) ok by (simp add: wf_heap_snoc)
        have wf2: "wf_heap ((h @ [?inner]) @ [?outer])"
          using wf1 by (subst wf_heap_snoc) simp
        have wfh1: "wf_heap h1" using wf2 h1 by simp
        have same: "json_of h1 v = json_of h v" if "val_ok h v" for v
          unfolding h1 using assms(1) that by (rule json_of_append)
        have inner: "json_of h1 (PRef (length h)) =
            JDict [(''name'', json_of h name), (''description'', json_of h description),
                   (''parameters'', json_of h parameters)]"
          using wfh1 ok by (simp add: json_of_ref h1 nth_append same [unfolded h1])
        have outer: "json_of h1 (PRef (Suc (length h))) =
            JDict [(''type'', JStr ''function''), (''function'', json_of h1 (PRef (length h)))]"
          using wfh1 by (simp add: json_of_ref h1 nth_append)
        show ?thesis
          using wfh1 r n d p name descr params inner outer
          by (simp add: openai_tool_def bind_exn_def h1)
      qed
    qed
  qed
qed

lemma prefix_val_ok: "prefix h h' \<Longrightarrow> val_ok h v \<Longrightarrow> val_ok h' v"
  by (auto simp: prefix_def intro: val_below_mono)

lemma json_of_prefix: "wf_heap h \<Longrightarrow> val_ok h v \<Longrightarrow> prefix h h' \<Longrightarrow> json_of h' v = json_of h v"
  by (auto simp: prefix_def json_of_append)

lemma openai_tools_loop_sim:
  assumes "wf_heap h" "list_all (val_ok h) ts" "list_all (val_ok h) acc"
    "openai_tools_loop h ts acc = (r, h')"
  shows "wf_heap h' \<and>
    (case map_exn openai_tool (map (json_of h) ts) of
       Inl e \<Rightarrow> r = Inl e
     | Inr js \<Rightarrow> \<exists>result. r = Inr result \<and> list_all (val_ok h') result
                  \<and> map (json_of h') result = map (json_of h) acc @ js)"
  using assms
proof (induction ts arbitrary: h acc)
  case Nil
  then show ?case by auto
next
  case (Cons t ts)
  obtain r1 h1 where t: "openai_tool_obj h t = (r1, h1)" by (cases "openai_tool_obj h t")
  have tok: "val_ok h t" using Cons.prems(2) by simp
  note sim = openai_tool_obj_sim [OF Cons.prems(1) tok t]
  have p: "prefix h h1" using t by (rule openai_tool_obj_frame)
  show ?case
  proof (cases "openai_tool (json_of h t)")
    case (Inl e)
    then show ?thesis using sim t Cons.prems(4) by (simp add: bind_exn_def)
  next
    case (Inr j)
    then obtain entry where e: "r1 = Inr entry" "val_ok h1 entry" "json_of h1 entry = j"
      using sim by auto
    have wf1: "wf_heap h1" using sim by simp
    have ts1: "list_all (val_ok h1) ts"
      using Cons.prems(2) p by (auto simp: list_all_iff intro: prefix_val_ok)
    have acc1: "list_all (val_ok h1) (acc @ [entry])"
      using Cons.prems(3) p e by (auto simp: list_all_iff intro: prefix_val_ok)
    have run: "openai_tools_loop h1 ts (acc @ [entry]) = (r, h')"
      using Cons.prems(4) t e by simp
    note ih = Cons.IH [OF wf1 ts1 acc1 run]
    have same: "json_of h1 x = json_of h x" if "val_ok h x" for x
      using Cons.prems(1) that p by (rule json_of_prefix)
    have m1: "map (json_of h1) ts = map (json_of h) ts"
      using Cons.prems(2) by (intro map_cong refl same) (simp add: list_all_iff)
    have m2: "map (json_of h1) acc = map (json_of h) acc"
      using Cons.prems(3) by (intro map_cong refl same) (simp add: list_all_iff)
    show ?thesis
      using ih Inr e m1 m2 by (auto simp: bind_exn_def split: sum.splits)
  qed
qed

lemma py_iter_sim:
  assumes "wf_heap h" "val_ok h tools"
  shows "case py_iter h tools of
           Inl e \<Rightarrow> json_iter (json_of h tools) = Inl e
         | Inr ts \<Rightarrow> json_iter (json_of h tools) = Inr (map (json_of h) ts)
                      \<and> list_all (val_ok h) ts"
proof (cases tools)
  case (PRef a)
  then have a: "a < length h" using assms by simp
  have "val_ok h x" if "x \<in> set (obj_vals (h ! a))" for x
    using wf_heap_vals [OF assms(1) a that] a by (auto intro: val_below_mono)
  then have kids: "list_all (val_ok h) (obj_vals (h ! a))"
    by (simp add: list_all_iff)
  show ?thesis
  proof (cases "h ! a")
    case (PList vs)
    then show ?thesis using PRef a assms kids
      by (simp add: py_iter_def heap_get_def json_iter_def json_of_ref)
  next
    case (PDict kvs)
    then show ?thesis using PRef a assms
      by (simp add: py_iter_def heap_get_def json_iter_def json_of_ref list_all_iff comp_def)
  qed
qed (simp_all add: py_iter_def json_iter_def list_all_iff comp_def)

lemma transform_openai_sim:
  assumes "wf_heap h" "val_ok h tools" "transform_tools_to_openai_format h tools = (r, h')"
  shows "wf_heap h' \<and>
    (case transform_tools_to_openai_format_value (json_of h tools) of
       Inl e \<Rightarrow> r = Inl e
     | Inr j \<Rightarrow> \<exists>result. r = Inr result \<and> val_ok h' result \<and> json_of h' result = j)"
proof (cases "py_iter h tools")
  case (Inl e)
  then show ?thesis using py_iter_sim [OF assms(1,2)] assms
    by (simp add: transform_tools_to_openai_format_def
          transform_tools_to_openai_format_value_def bind_exn_def)
next
  case (Inr ts)
  then have it: "json_iter (json_of h tools) = Inr (map (json_of h) ts)"
    and ok: "list_all (val_ok h) ts"
    using py_iter_sim [OF assms(1,2)] by simp_all
  obtain r1 h1 where l: "openai_tools_loop h ts [] = (r1, h1)"
    by (cases "openai_tools_loop h ts []")
  note sim = openai_tools_loop_sim [OF assms(1) ok _ l, simplified]
  show ?thesis
  proof (cases "map_exn openai_tool (map (json_of h) ts)")
    case (Inl e)
    then show ?thesis using sim Inr it l assms(3)
      by (simp add: transform_tools_to_openai_format_def
            transform_tools_to_openai_format_value_def bind_exn_def)
  next
    case js: (Inr js)
    then obtain result where res: "r1 = Inr result" "list_all (val_ok h1) result"
      "map (json_of h1) result = js"
      using sim by auto
    have wf1: "wf_heap h1" using sim by simp
    have out: "r = Inr (PRef (length h1))" "h' = h1 @ [PList result]"
      using assms(3) Inr l res by (simp_all add: transform_tools_to_openai_format_def alloc_def)
    have wf': "wf_heap h'" using wf1 res(2) out by (simp add: wf_heap_snoc)
    have "json_of h' (PRef (length h1)) = JList (map (json_of h') result)"
      using wf' out by (simp add: json_of_ref)
    moreover have "map (json_of h') result = map (json_of h1) result"
      using wf1 res(2) out by (auto simp: list_all_iff json_of_append)
    ultimately show ?thesis
      using wf' out res js it
      by (simp add: transform_tools_to_openai_format_value_def bind_exn_def)
  qed
qed

lemma copy_rel_mono: "copy_rel m v v' \<Longrightarrow> set m \<subseteq> set m' \<Longrightarrow> copy_rel m' v v'"
  by (cases v) (auto simp: copy_rel_def)

lemma wf_heap_prefix:
  assumes "prefix hs h" "wf_heap h"
  shows "wf_heap hs"
proof -
  obtain zs where h: "h = hs @ zs" using assms(1) by (auto simp: prefix_def)
  have "list_all (val_below a) (obj_vals (hs ! a))" if "a < length hs" for a
  proof -
    have "list_all (val_below a) (obj_vals (h ! a))"
      using assms(2) that h by (simp add: wf_heap_iff)
    then show ?thesis using that h by (simp add: nth_append)
  qed
  then show ?thesis by (simp add: wf_heap_iff)
qed

lemma wf_heap_kid:
  assumes "wf_heap h" "a < length h" "v \<in> set (obj_vals (h ! a))"
  shows "val_ok h v" and "a \<le> n \<Longrightarrow> val_below n v"
proof -
  have b: "val_below a v" using assms by (rule wf_heap_vals)
  show "val_ok h v" using b by (rule val_below_mono) (use assms(2) in simp)
  show "val_below n v" if "a \<le> n" using b that by (rule val_below_mono)
qed

lemma list_all2_right:
  "list_all2 P xs ys \<Longrightarrow> y \<in> set ys \<Longrightarrow> \<exists>x \<in> set xs. P x y"
  by (induction rule: list_all2_induct) auto

lemma list_all2_map_eq:
  "list_all2 (\<lambda>x y. f x = g y) xs ys \<Longrightarrow> map f xs = map g ys"
  by (induction rule: list_all2_induct) auto

lemma copy_invD:
  assumes "copy_inv hs h m" "(a, b) \<in> set m"
  shows "a < length hs" "length hs \<le> b" "b < length h"
    "json_of h (PRef b) = json_of hs (PRef a)"
    "reaches h (PRef b) x \<Longrightarrow> \<exists>a'. (a', x) \<in> set m \<and> reaches hs (PRef a) a'"
  using assms unfolding copy_inv_def by blast+

lemma prefix_nth: "prefix hs h \<Longrightarrow> a < length hs \<Longrightarrow> h ! a = hs ! a"
  by (auto simp: prefix_def nth_append)

lemma prefix_length: "prefix hs h \<Longrightarrow> length hs \<le> length h"
  by (auto simp: prefix_def)

lemma copy_rel_facts:
  assumes "copy_inv hs h m" "copy_rel m v v'" "val_ok hs v"
  shows "val_ok h v'" and "json_of h v' = json_of hs v"
    and "\<And>x. reaches h v' x \<Longrightarrow> length hs \<le> x"
    and "\<And>x. reaches h v' x \<Longrightarrow> \<exists>a'. (a', x) \<in> set m \<and> reaches hs v a'"
proof -
  show "val_ok h v'"
  proof (cases v)
    case (PRef a)
    then obtain b where "v' = PRef b" "(a, b) \<in> set m"
      using assms(2) by (auto simp: copy_rel_def)
    then show ?thesis using copy_invD(3) [OF assms(1)] by simp
  qed (use assms(2) in \<open>simp_all add: copy_rel_def\<close>)
  show "json_of h v' = json_of hs v"
  proof (cases v)
    case (PRef a)
    then obtain b where "v' = PRef b" "(a, b) \<in> set m"
      using assms(2) by (auto simp: copy_rel_def)
    then show ?thesis using copy_invD(4) [OF assms(1)] PRef by simp
  qed (use assms(2) in \<open>simp_all add: copy_rel_def\<close>)
  show r: "\<exists>a'. (a', x) \<in> set m \<and> reaches hs v a'" if rx: "reaches h v' x" for x
  proof -
    obtain b where b: "v' = PRef b" using reaches_ref [OF rx] by blast
    then obtain a where a: "v = PRef a" "(a, b) \<in> set m"
      using assms(2) by (cases v) (simp_all add: copy_rel_def)
    show ?thesis using copy_invD(5) [OF assms(1) a(2)] rx a(1) b by simp
  qed
  show "length hs \<le> x" if rx: "reaches h v' x" for x
  proof -
    obtain a' where "(a', x) \<in> set m" using r [OF rx] by blast
    then show ?thesis using copy_invD(2) [OF assms(1)] by blast
  qed
qed

lemma copied_all_from_copied:
  assumes P: "\<And>v h m. copy_inv hs h m \<Longrightarrow> val_below n v \<Longrightarrow> val_ok hs v \<Longrightarrow> copied hs n v h m"
  shows "copy_inv hs h m \<Longrightarrow> list_all (val_below n) vs \<Longrightarrow> list_all (val_ok hs) vs \<Longrightarrow>
         copied_all hs n vs h m"
proof (induction vs arbitrary: h m)
  case Nil
  then show ?case by (simp add: copied_all_def)
next
  case (Cons v vs)
  have "copied hs n v h m" using Cons.prems by (intro P) simp_all
  then obtain v' h1 m1 where
    1: "deepcopy n v (h, m) = Some (v', h1, m1)" "copy_inv hs h1 m1" "prefix h h1"
       "set m \<subseteq> set m1" "copy_rel m1 v v'"
    unfolding copied_def by blast
  have "copied_all hs n vs h1 m1" using Cons.prems 1(2) by (intro Cons.IH) simp_all
  then obtain vs' h2 m2 where
    2: "deepcopy_all n vs (h1, m1) = Some (vs', h2, m2)" "copy_inv hs h2 m2" "prefix h1 h2"
       "set m1 \<subseteq> set m2" "list_all2 (copy_rel m2) vs vs'"
    unfolding copied_all_def by blast
  have "deepcopy_all n (v # vs) (h, m) = Some (v' # vs', h2, m2)"
    using 1(1) 2(1) by simp
  moreover have "prefix h h2" using 1(3) 2(3) by (rule prefix_order.trans)
  moreover have "set m \<subseteq> set m2" using 1(4) 2(4) by blast
  moreover have "list_all2 (copy_rel m2) (v # vs) (v' # vs')"
    using 1(5) 2(4,5) by (auto intro: copy_rel_mono)
  ultimately show ?case using 2(2) unfolding copied_all_def by blast
qed

lemma map_snd_zip_fst: "length vs' = length kvs \<Longrightarrow> map snd (zip (map fst kvs) vs') = vs'"
  by (rule map_snd_zip) simp

text \<open>The step that allocates the copy of an object whose parts have been copied.\<close>

lemma copy_inv_new_object:
  assumes inv: "copy_inv hs h' m'"
    and a: "a < length hs"
    and parts: "list_all2 (copy_rel m') (obj_vals (hs ! a)) vs'"
    and shape: "obj_vals obj' = vs'"
    and json: "json_of (h' @ [obj']) (PRef (length h')) = json_of hs (PRef a)"
  shows "copy_inv hs (h' @ [obj']) ((a, length h') # m')"
proof -
  let ?h = "h' @ [obj']" and ?b = "length h'" and ?m = "(a, length h') # m'"
  have wfs: "wf_heap hs" using inv by (auto simp: copy_inv_def intro: wf_heap_prefix)
  have wf': "wf_heap h'" using inv by (simp add: copy_inv_def)
  have kid_ok: "val_ok hs v" if "v \<in> set (obj_vals (hs ! a))" for v
    using wfs a that by (rule wf_heap_kid(1))
  have new_ok: "val_ok h' v'" if vin: "v' \<in> set vs'" for v'
  proof -
    obtain v where "v \<in> set (obj_vals (hs ! a))" "copy_rel m' v v'"
      using list_all2_right [OF parts vin] by blast
    then show ?thesis using copy_rel_facts(1) [OF inv] kid_ok by blast
  qed
  have wf: "wf_heap ?h"
    using wf' new_ok shape by (simp add: wf_heap_snoc list_all_iff)
  have pre: "prefix hs ?h" using inv by (auto simp: copy_inv_def prefix_def)
  have len: "length hs \<le> ?b" using inv by (auto simp: copy_inv_def dest: prefix_length)
  have "b1 \<noteq> ?b" if "(a1, b1) \<in> set m'" for a1 b1
    using copy_invD(3) [OF inv that] by simp
  then have "?b \<notin> snd ` set m'" by force
  moreover have "distinct (map snd m')" using inv by (simp add: copy_inv_def)
  ultimately have dist: "distinct (map snd ?m)" by simp
  have old_reach: "reaches h' v x" if "reaches ?h v x" "val_ok h' v" for v x
    using wf' that(1) that(2)
  proof (rule reaches_frame)
    fix c assume "reaches h' v c"
    then have "c < length h'" by (rule reaches_in_range)
    then show "?h ! c = h' ! c" by (simp add: nth_append)
  qed
  have entry: "a1 < length hs \<and> length hs \<le> b1 \<and> b1 < length ?h \<and>
        json_of ?h (PRef b1) = json_of hs (PRef a1) \<and>
        (\<forall>x. reaches ?h (PRef b1) x \<longrightarrow> (\<exists>a'. (a', x) \<in> set ?m \<and> reaches hs (PRef a1) a'))"
    if "(a1, b1) \<in> set ?m" for a1 b1
  proof (cases "(a1, b1) \<in> set m'")
    case True
    then have e: "a1 < length hs" "length hs \<le> b1" "b1 < length h'"
      "json_of h' (PRef b1) = json_of hs (PRef a1)"
      "\<And>x. reaches h' (PRef b1) x \<Longrightarrow> \<exists>a'. (a', x) \<in> set m' \<and> reaches hs (PRef a1) a'"
      using copy_invD [OF inv] by blast+
    have "json_of ?h (PRef b1) = json_of h' (PRef b1)"
      using wf' e(3) by (intro json_of_append) simp_all
    moreover have "\<exists>a'. (a', x) \<in> set ?m \<and> reaches hs (PRef a1) a'"
      if "reaches ?h (PRef b1) x" for x
      using e(5) [OF old_reach [OF that]] e(3) by auto
    ultimately show ?thesis using e by auto
  next
    case False
    then have eq: "a1 = a" "b1 = ?b" using that by auto
    have "\<exists>a'. (a', x) \<in> set ?m \<and> reaches hs (PRef a) a'" if r: "reaches ?h (PRef ?b) x" for x
    proof -
      from reaches_cases_ref [OF r] show ?thesis
      proof
        assume "x = ?b"
        then show ?thesis using a by (auto intro: reaches.here)
      next
        assume "\<exists>v \<in> set (obj_vals (?h ! ?b)). reaches ?h v x"
        then obtain v' where v': "v' \<in> set vs'" "reaches ?h v' x" using shape by auto
        obtain v where v: "v \<in> set (obj_vals (hs ! a))" "copy_rel m' v v'"
          using list_all2_right [OF parts v'(1)] by blast
        have "reaches h' v' x" using v'(2) new_ok [OF v'(1)] by (rule old_reach)
        then obtain a' where "(a', x) \<in> set m'" "reaches hs v a'"
          using copy_rel_facts(4) [OF inv v(2) kid_ok [OF v(1)]] by blast
        then show ?thesis using a v(1) by (auto intro: reaches.step)
      qed
    qed
    then show ?thesis using eq a len json by auto
  qed
  show ?thesis
    unfolding copy_inv_def using pre wf dist entry by blast
qed

lemma json_of_copy:
  assumes inv: "copy_inv hs h' m'"
    and a: "a < length hs"
    and parts: "list_all2 (copy_rel m') (obj_vals (hs ! a)) vs'"
    and wf: "wf_heap (h' @ [obj'])"
    and obj: "(case hs ! a of PList vs \<Rightarrow> obj' = PList vs'
               | PDict kvs \<Rightarrow> obj' = PDict (zip (map fst kvs) vs'))"
  shows "json_of (h' @ [obj']) (PRef (length h')) = json_of hs (PRef a)"
proof -
  let ?h = "h' @ [obj']"
  have wfs: "wf_heap hs" using inv by (auto simp: copy_inv_def intro: wf_heap_prefix)
  have wf': "wf_heap h'" using inv by (simp add: copy_inv_def)
  have kid_ok: "val_ok hs v" if "v \<in> set (obj_vals (hs ! a))" for v
    using wfs a that by (rule wf_heap_kid(1))
  have each: "json_of ?h v' = json_of hs v"
    if "v \<in> set (obj_vals (hs ! a))" "copy_rel m' v v'" for v v'
  proof -
    have "val_ok h' v'" "json_of h' v' = json_of hs v"
      using copy_rel_facts(1,2) [OF inv that(2) kid_ok [OF that(1)]] by auto
    then show ?thesis using wf' by (simp add: json_of_append)
  qed
  have "list_all2 (\<lambda>v v'. json_of hs v = json_of ?h v') (obj_vals (hs ! a)) vs'"
    using parts
  proof (rule list.rel_mono_strong)
    fix v v' assume "v \<in> set (obj_vals (hs ! a))" "v' \<in> set vs'" "copy_rel m' v v'"
    then show "json_of hs v = json_of ?h v'" using each by simp
  qed
  then have maps: "map (json_of ?h) vs' = map (json_of hs) (obj_vals (hs ! a))"
    by (rule list_all2_map_eq [symmetric])
  have len: "length vs' = length (obj_vals (hs ! a))"
    using parts by (simp add: list_all2_lengthD)
  show ?thesis
  proof (cases "hs ! a")
    case (PList vs)
    then show ?thesis using obj maps wf wfs a by (simp add: json_of_ref)
  next
    case (PDict kvs)
    have "map (\<lambda>kv. (fst kv, json_of ?h (snd kv))) (zip (map fst kvs) vs') =
          zip (map fst kvs) (map (json_of ?h) vs')"
      by (simp add: zip_map2 zip_map1 case_prod_beta comp_def)
    also have "\<dots> = zip (map fst kvs) (map (json_of hs) (map snd kvs))"
      using maps PDict by simp
    also have "\<dots> = map (\<lambda>kv. (fst kv, json_of hs (snd kv))) kvs"
      by (rule zip_fst_map_snd)
    finally show ?thesis using PDict obj wf wfs a by (simp add: json_of_ref)
  qed
qed

lemma copied_step:
  assumes Q: "\<And>vs h m. copy_inv hs h m \<Longrightarrow> list_all (val_below n) vs \<Longrightarrow>
               list_all (val_ok hs) vs \<Longrightarrow> copied_all hs n vs h m"
    and inv: "copy_inv hs h m" and below: "val_below (Suc n) v" and ok: "val_ok hs v"
  shows "copied hs (Suc n) v h m"
proof (cases v)
  case (PRef a)
  have a: "a < length hs" "a \<le> n" using below ok PRef by auto
  have wfs: "wf_heap hs" using inv by (auto simp: copy_inv_def intro: wf_heap_prefix)
  have pre: "prefix hs h" using inv by (simp add: copy_inv_def)
  have get: "heap_get h a = Some (hs ! a)"
    using pre a(1) by (auto simp: heap_get_def prefix_nth dest: prefix_length)
  show ?thesis
  proof (cases "map_of m a")
    case (Some b)
    then have "(a, b) \<in> set m" by (rule map_of_SomeD)
    then show ?thesis using Some PRef inv by (auto simp: copied_def copy_rel_def)
  next
    case None
    let ?vs = "obj_vals (hs ! a)"
    have kb: "list_all (val_below n) ?vs"
      using wf_heap_kid(2) [OF wfs a(1) _ a(2)] by (simp add: list_all_iff)
    have ko: "list_all (val_ok hs) ?vs"
      using wf_heap_kid(1) [OF wfs a(1)] by (simp add: list_all_iff)
    have "copied_all hs n ?vs h m" using inv kb ko by (rule Q)
    then obtain vs' h' m' where
      c: "deepcopy_all n ?vs (h, m) = Some (vs', h', m')" "copy_inv hs h' m'" "prefix h h'"
         "set m \<subseteq> set m'" "list_all2 (copy_rel m') ?vs vs'"
      unfolding copied_all_def by blast
    define obj' where "obj' = (case hs ! a of PList vs \<Rightarrow> PList vs'
                               | PDict kvs \<Rightarrow> PDict (zip (map fst kvs) vs'))"
    have len: "length vs' = length ?vs" using c(5) by (simp add: list_all2_lengthD)
    have shape: "obj_vals obj' = vs'"
      using len by (cases "hs ! a") (simp_all add: obj'_def map_snd_zip_fst)
    have objc: "(case hs ! a of PList vs \<Rightarrow> obj' = PList vs'
               | PDict kvs \<Rightarrow> obj' = PDict (zip (map fst kvs) vs'))"
      by (cases "hs ! a") (simp_all add: obj'_def)
    have run: "deepcopy (Suc n) v (h, m) = Some (PRef (length h'), h' @ [obj'], (a, length h') # m')"
      using PRef None get c(1) by (cases "hs ! a") (simp_all add: obj'_def)
    have kid_ok: "val_ok hs x" if "x \<in> set ?vs" for x
      using ko that by (simp add: list_all_iff)
    have new_ok: "val_ok h' v'" if vin: "v' \<in> set vs'" for v'
    proof -
      obtain x where "x \<in> set ?vs" "copy_rel m' x v'"
        using list_all2_right [OF c(5) vin] by blast
      then show ?thesis using copy_rel_facts(1) [OF c(2)] kid_ok by blast
    qed
    have wf: "wf_heap (h' @ [obj'])"
      using c(2) new_ok shape by (simp add: copy_inv_def wf_heap_snoc list_all_iff)
    have json: "json_of (h' @ [obj']) (PRef (length h')) = json_of hs (PRef a)"
      using c(2) a(1) c(5) wf objc by (rule json_of_copy)
    have inv': "copy_inv hs (h' @ [obj']) ((a, length h') # m')"
      using c(2) a(1) c(5) shape json by (rule copy_inv_new_object)
    have "prefix h (h' @ [obj'])" using c(3) by (auto simp: prefix_def)
    moreover have "set m \<subseteq> set ((a, length h') # m')" using c(4) by auto
    moreover have "copy_rel ((a, length h') # m') v (PRef (length h'))"
      using PRef by (simp add: copy_rel_def)
    ultimately show ?thesis using run inv' unfolding copied_def by blast
  qed
qed (use inv in \<open>auto simp: copied_def copy_rel_def\<close>)

lemma deepcopy_copied:
  "copy_inv hs h m \<Longrightarrow> val_below n v \<Longrightarrow> val_ok hs v \<Longrightarrow> copied hs n v h m"
proof (induction n arbitrary: v h m)
  case 0
  then show ?case by (cases v) (auto simp: copied_def copy_rel_def)
next
  case (Suc n)
  have "copied_all hs n vs h m"
    if "copy_inv hs h m" "list_all (val_below n) vs" "list_all (val_ok hs) vs" for vs h m
    using Suc.IH that by (rule copied_all_from_copied)
  then show ?case using Suc.prems by (rule copied_step)
qed

lemma copy_inv_start: "wf_heap h \<Longrightarrow> copy_inv h h []"
  by (simp add: copy_inv_def)

lemma ref_addrs_iff: "a \<in> set (ref_addrs es) \<longleftrightarrow> PRef a \<in> set es"
  by (induction es rule: ref_addrs.induct) auto

lemma shrinks_refl: "shrinks g g"
  by (simp add: shrinks_def)

lemma shrinks_trans: "shrinks g g1 \<Longrightarrow> shrinks g1 g2 \<Longrightarrow> shrinks g g2"
  unfolding shrinks_def by (metis subset_trans)

lemma shrinks_update:
  assumes "b < length g" "set (obj_vals obj) \<subseteq> set (obj_vals (g ! b))"
  shows "shrinks g (g[b := obj])"
  using assms by (auto simp: shrinks_def nth_list_update)

lemma wf_shrinks:
  assumes "wf_heap g" "shrinks g g'"
  shows "wf_heap g'"
proof -
  have "list_all (val_below a) (obj_vals (g' ! a))" if a: "a < length g'" for a
  proof -
    have "a < length g" using a assms(2) by (simp add: shrinks_def)
    then have "list_all (val_below a) (obj_vals (g ! a))"
      and "set (obj_vals (g' ! a)) \<subseteq> set (obj_vals (g ! a))"
      using assms by (simp_all add: wf_heap_iff shrinks_def)
    then show ?thesis by (auto simp: list_all_iff)
  qed
  then show ?thesis by (simp add: wf_heap_iff)
qed

lemma reaches_shrinks:
  assumes "shrinks g g'"
  shows "reaches g' v x \<Longrightarrow> reaches g v x"
proof (induction rule: reaches.induct)
  case (here a)
  then show ?case using assms by (auto simp: shrinks_def intro: reaches.here)
next
  case (step a v b)
  have a: "a < length g" using step.hyps assms by (simp add: shrinks_def)
  then have "v \<in> set (obj_vals (g ! a))" using step.hyps assms by (auto simp: shrinks_def)
  then show ?case using a step.IH by (auto intro: reaches.step)
qed

lemma delete_map_snd:
  "AList.delete k (map (\<lambda>kv. (fst kv, f (snd kv))) kvs) =
   map (\<lambda>kv. (fst kv, f (snd kv))) (AList.delete k kvs)"
  by (induction kvs) auto

lemma update_map_snd:
  "AList.update k (f v) (map (\<lambda>kv. (fst kv, f (snd kv))) kvs) =
   map (\<lambda>kv. (fst kv, f (snd kv))) (AList.update k v kvs)"
  by (induction kvs) auto

lemma vals_delete: "set (map snd (AList.delete k kvs)) \<subseteq> set (map snd kvs)"
  by (induction kvs) auto

lemma vals_update: "set (map snd (AList.update k x kvs)) \<subseteq> insert x (set (map snd kvs))"
  by (induction kvs) auto

lemma json_of_unreached:
  assumes "wf_heap g" "val_ok g v" "\<not> reaches g v b"
  shows "json_of (g[b := obj]) v = json_of g v"
proof (rule json_of_frame(1) [OF assms(1) _ assms(2)])
  fix a assume "reaches g v a"
  then have "a \<noteq> b" using assms(3) by auto
  then show "g[b := obj] ! a = g ! a" by simp
qed simp

lemma not_reaches_kid:
  assumes "wf_heap g" "b < length g" "v \<in> set (obj_vals (g ! b))"
  shows "\<not> reaches g v b"
proof
  assume "reaches g v b"
  then obtain a where "v = PRef a" "b \<le> a" using reaches_le [OF assms(1)] by blast
  moreover have "val_below b v" using assms by (rule wf_heap_vals)
  ultimately show False by simp
qed

text \<open>One pass of the renaming loop on a dictionary object.\<close>

lemma rename_json:
  assumes wf: "wf_heap g" and b: "b < length g" and obj: "g ! b = PDict kvs"
    and x: "map_of kvs ''inputSchema'' = Some x"
  defines "kvs' \<equiv> AList.update ''input_schema'' x (AList.delete ''inputSchema'' kvs)"
  shows "shrinks g (g[b := PDict kvs'])"
    and "antrophic_tool (json_of g (PRef b)) = Inr (json_of (g[b := PDict kvs']) (PRef b))"
proof -
  let ?F = "\<lambda>kv. (fst kv, json_of g (snd kv))"
  let ?g = "g[b := PDict kvs']"
  have xin: "x \<in> set (map snd kvs)"
    using x by (auto dest: map_of_SomeD intro: rev_image_eqI)
  have sub: "set (map snd kvs') \<subseteq> set (map snd kvs)"
    using vals_update [of "''input_schema''" x "AList.delete ''inputSchema'' kvs"]
      vals_delete [of "''inputSchema''" kvs] xin
    unfolding kvs'_def by blast
  show sh: "shrinks g ?g"
    using b obj sub by (intro shrinks_update) simp_all
  have wf': "wf_heap ?g" using wf sh by (rule wf_shrinks)
  have same: "json_of ?g v = json_of g v" if v: "v \<in> set (map snd kvs)" for v
  proof (rule json_of_unreached [OF wf])
    show "val_ok g v" using wf b v obj by (intro wf_heap_kid(1) [of g b]) simp_all
    show "\<not> reaches g v b" using wf b v obj by (intro not_reaches_kid) simp_all
  qed
  have "json_of ?g (PRef b) = JDict (map (\<lambda>kv. (fst kv, json_of ?g (snd kv))) kvs')"
    using wf' b by (simp add: json_of_ref)
  also have "map (\<lambda>kv. (fst kv, json_of ?g (snd kv))) kvs' = map ?F kvs'"
  proof (intro map_cong refl)
    fix kv assume "kv \<in> set kvs'"
    then have "snd kv \<in> set (map snd kvs)" using sub by auto
    then show "(fst kv, json_of ?g (snd kv)) = ?F kv" using same by simp
  qed
  also have "map ?F kvs' =
      AList.update ''input_schema'' (json_of g x) (AList.delete ''inputSchema'' (map ?F kvs))"
    unfolding kvs'_def by (simp only: delete_map_snd update_map_snd)
  finally have new: "json_of ?g (PRef b) =
      JDict (AList.update ''input_schema'' (json_of g x)
               (AList.delete ''inputSchema'' (map ?F kvs)))" .
  have old: "json_of g (PRef b) = JDict (map ?F kvs)"
    using wf b obj by (simp add: json_of_ref)
  have look: "map_of (map ?F kvs) ''inputSchema'' = Some (json_of g x)"
    using x by (simp add: map_of_map_snd)
  show "antrophic_tool (json_of g (PRef b)) = Inr (json_of ?g (PRef b))"
    unfolding old new
    by (simp add: antrophic_tool_def json_pop_def json_setitem_def bind_exn_def look)
qed

lemma loop_step_dict:
  assumes "b < length g" "g ! b = PDict kvs" "map_of kvs ''inputSchema'' = Some x"
  shows "antrophic_tools_loop g (PRef b # es) =
         antrophic_tools_loop
           (g[b := PDict (AList.update ''input_schema'' x (AList.delete ''inputSchema'' kvs))]) es"
  using assms by (simp add: py_pop_def py_setitem_def heap_get_def)

lemma loop_step_error:
  assumes "wf_heap g" "val_ok g e"
    and "\<And>b kvs x. e = PRef b \<Longrightarrow> g ! b = PDict kvs \<Longrightarrow> map_of kvs ''inputSchema'' \<noteq> Some x"
  shows "\<exists>err. antrophic_tools_loop g (e # es) = (Inl err, g)
               \<and> antrophic_tool (json_of g e) = Inl err"
proof (cases e)
  case (PRef b)
  then have b: "b < length g" using assms(2) by simp
  show ?thesis
  proof (cases "g ! b")
    case (PList vs)
    then show ?thesis using PRef b assms(1)
      by (simp add: py_pop_def heap_get_def json_of_ref antrophic_tool_def json_pop_def
            bind_exn_def)
  next
    case (PDict kvs)
    then have "map_of kvs ''inputSchema'' = None" using assms(3) [OF PRef PDict] by auto
    then show ?thesis using PRef b assms(1) PDict
      by (simp add: py_pop_def heap_get_def json_of_ref antrophic_tool_def json_pop_def
            bind_exn_def map_of_map_snd)
  qed
qed (simp_all add: py_pop_def antrophic_tool_def json_pop_def bind_exn_def)

lemma separate_tail: "separate g (e # es) \<Longrightarrow> separate g es"
  by (cases e) (auto simp: separate_def)

lemma separate_shrinks: "separate g es \<Longrightarrow> shrinks g g' \<Longrightarrow> separate g' es"
  unfolding separate_def by (blast dest: reaches_shrinks)

lemma antrophic_tools_loop_sim:
  assumes "wf_heap g" "list_all (val_ok g) es" "separate g es"
    "antrophic_tools_loop g es = (r, g')"
  shows "shrinks g g' \<and> (\<forall>a. a \<notin> set (ref_addrs es) \<longrightarrow> g' ! a = g ! a) \<and>
    (case map_exn antrophic_tool (map (json_of g) es) of
       Inl err \<Rightarrow> r = Inl err
     | Inr js \<Rightarrow> r = Inr () \<and> map (json_of g') es = js)"
  using assms
proof (induction es arbitrary: g)
  case Nil
  then show ?case by (auto simp: shrinks_refl)
next
  case (Cons e es)
  have eok: "val_ok g e" and esok: "list_all (val_ok g) es" using Cons.prems(2) by simp_all
  show ?case
  proof (cases "\<exists>b kvs x. e = PRef b \<and> g ! b = PDict kvs \<and> map_of kvs ''inputSchema'' = Some x")
    case False
    then obtain err where "antrophic_tools_loop g (e # es) = (Inl err, g)"
      "antrophic_tool (json_of g e) = Inl err"
      using loop_step_error [OF Cons.prems(1) eok, of es] by blast
    then show ?thesis using Cons.prems(4) by (auto simp: shrinks_refl bind_exn_def)
  next
    case True
    then obtain b kvs x where e: "e = PRef b" and obj: "g ! b = PDict kvs"
      and x: "map_of kvs ''inputSchema'' = Some x" by blast
    have b: "b < length g" using eok e by simp
    define g2 where
      "g2 = g[b := PDict (AList.update ''input_schema'' x (AList.delete ''inputSchema'' kvs))]"
    have sh: "shrinks g g2"
      and head: "antrophic_tool (json_of g (PRef b)) = Inr (json_of g2 (PRef b))"
      using rename_json [OF Cons.prems(1) b obj x] by (simp_all add: g2_def)
    have wf2: "wf_heap g2" using Cons.prems(1) sh by (rule wf_shrinks)
    have len: "length g2 = length g" by (simp add: g2_def)
    have run: "antrophic_tools_loop g2 es = (r, g')"
      using Cons.prems(4) loop_step_dict [OF b obj x, of es] by (simp add: e g2_def)
    have sep_es: "separate g2 es"
      using Cons.prems(3) sh by (auto intro: separate_shrinks separate_tail)
    have esok2: "list_all (val_ok g2) es" using esok len by simp
    note ih = Cons.IH [OF wf2 esok2 sep_es run]
    have bnot: "b \<notin> set (ref_addrs es)"
      using Cons.prems(3) by (simp add: separate_def e)
    have tail_same: "json_of g2 e' = json_of g e'" if e': "e' \<in> set es" for e'
    proof -
      have ok: "val_ok g e'" using esok e' by (simp add: list_all_iff)
      have "\<not> reaches g e' b"
      proof
        assume r: "reaches g e' b"
        then obtain a where a: "e' = PRef a" using reaches_ref by blast
        then have "a \<in> set (ref_addrs (e # es))" "b \<in> set (ref_addrs (e # es))"
          using e' e by (simp_all add: ref_addrs_iff)
        then have "b = a" using Cons.prems(3) r a unfolding separate_def by blast
        then show False using bnot a e' by (simp add: ref_addrs_iff)
      qed
      then show ?thesis unfolding g2_def using Cons.prems(1) ok by (intro json_of_unreached)
    qed
    have maps: "map (json_of g2) es = map (json_of g) es"
      using tail_same by (intro map_cong refl) simp
    have head_final: "json_of g' (PRef b) = json_of g2 (PRef b)"
    proof (rule json_of_frame(1) [OF wf2])
      show "length g2 \<le> length g'" using ih by (simp add: shrinks_def)
      show "val_ok g2 (PRef b)" using b len by simp
      fix a assume r2: "reaches g2 (PRef b) a"
      have r: "reaches g (PRef b) a" using sh r2 by (rule reaches_shrinks)
      have "a \<notin> set (ref_addrs es)"
      proof
        assume ain: "a \<in> set (ref_addrs es)"
        then have "a \<in> set (ref_addrs (e # es))" "b \<in> set (ref_addrs (e # es))"
          using e by (simp_all add: ref_addrs_iff)
        then have "a = b" using Cons.prems(3) r unfolding separate_def by blast
        then show False using ain bnot by simp
      qed
      then show "g' ! a = g2 ! a" using ih by simp
    qed
    have frame: "g' ! a = g ! a" if "a \<notin> set (ref_addrs (e # es))" for a
    proof -
      have "a \<noteq> b" "a \<notin> set (ref_addrs es)" using that e by simp_all
      then show ?thesis using ih by (simp add: g2_def)
    qed
    have sh': "shrinks g g'" using sh ih by (blast intro: shrinks_trans)
    show ?thesis
    proof (cases "map_exn antrophic_tool (map (json_of g) es)")
      case (Inl err)
      then show ?thesis using ih maps head sh' frame e by (simp add: bind_exn_def)
    next
      case (Inr js)
      then show ?thesis using ih maps head head_final sh' frame e by (simp add: bind_exn_def)
    qed
  qed
qed

lemma prefix_same:
  assumes "prefix h g" "length g' = length g" "\<And>a. a < length h \<Longrightarrow> g' ! a = g ! a"
  shows "prefix h g'"
proof -
  have len: "length h \<le> length g" using assms(1) by (rule prefix_length)
  have "take (length h) g' = h"
  proof (rule nth_equalityI)
    show "length (take (length h) g') = length h" using len assms(2) by simp
    fix i assume "i < length (take (length h) g')"
    then have i: "i < length h" by simp
    then show "take (length h) g' ! i = h ! i"
      using assms(3) [OF i] prefix_nth [OF assms(1) i] by simp
  qed
  moreover have "prefix (take (length h) g') g'" by (rule take_is_prefix)
  ultimately show ?thesis by simp
qed

lemma antrophic_tools_loop_frame:
  "antrophic_tools_loop g es = (r, g') \<Longrightarrow>
   shrinks g g' \<and> (\<forall>a. a \<notin> set (ref_addrs es) \<longrightarrow> g' ! a = g ! a)"
proof (induction es arbitrary: g)
  case Nil
  then show ?case by (auto simp: shrinks_refl)
next
  case (Cons e es)
  show ?case
  proof (cases "\<exists>b kvs x. e = PRef b \<and> b < length g \<and> g ! b = PDict kvs
                  \<and> map_of kvs ''inputSchema'' = Some x")
    case True
    then obtain b kvs x where e: "e = PRef b" and b: "b < length g" and obj: "g ! b = PDict kvs"
      and x: "map_of kvs ''inputSchema'' = Some x" by blast
    define kvs' where "kvs' = AList.update ''input_schema'' x (AList.delete ''inputSchema'' kvs)"
    have xin: "x \<in> set (map snd kvs)"
      using x by (auto dest: map_of_SomeD intro: rev_image_eqI)
    have sub: "set (map snd kvs') \<subseteq> set (map snd kvs)"
      using vals_update [of "''input_schema''" x "AList.delete ''inputSchema'' kvs"]
        vals_delete [of "''inputSchema''" kvs] xin
      unfolding kvs'_def by blast
    have sh: "shrinks g (g[b := PDict kvs'])"
      using b obj sub by (intro shrinks_update) simp_all
    have run: "antrophic_tools_loop (g[b := PDict kvs']) es = (r, g')"
      using Cons.prems loop_step_dict [OF b obj x, of es] by (simp add: e kvs'_def)
    note ih = Cons.IH [OF run]
    have "shrinks g g'" using sh ih by (blast intro: shrinks_trans)
    moreover have "g' ! a = g ! a" if "a \<notin> set (ref_addrs (e # es))" for a
    proof -
      have "a \<noteq> b" "a \<notin> set (ref_addrs es)" using that e by simp_all
      then show ?thesis using ih by simp
    qed
    ultimately show ?thesis by blast
  next
    case False
    have "\<exists>err. py_pop g e ''inputSchema'' = Inl err"
    proof (cases e)
      case (PRef b)
      show ?thesis
      proof (cases "b < length g")
        case lt: True
        show ?thesis
        proof (cases "g ! b")
          case (PList vs)
          then show ?thesis using PRef lt by (simp add: py_pop_def heap_get_def)
        next
          case (PDict kvs)
          then have "map_of kvs ''inputSchema'' = None" using False PRef lt by auto
          then show ?thesis using PRef lt PDict by (simp add: py_pop_def heap_get_def)
        qed
      next
        case False
        then show ?thesis using PRef by (simp add: py_pop_def heap_get_def)
      qed
    qed (simp_all add: py_pop_def)
    then obtain err where "py_pop g e ''inputSchema'' = Inl err" by blast
    then have "antrophic_tools_loop g (e # es) = (Inl err, g)" by simp
    then show ?thesis using Cons.prems by (simp add: shrinks_refl)
  qed
qed

lemma py_iter_refs:
  assumes "py_iter g t = Inr ts" "a \<in> set (ref_addrs ts)"
  shows "\<exists>bt. t = PRef bt \<and> bt < length g \<and> PRef a \<in> set (obj_vals (g ! bt))"
proof (cases t)
  case (PRef bt)
  show ?thesis
  proof (cases "bt < length g")
    case lt: True
    show ?thesis
    proof (cases "g ! bt")
      case (PList vs)
      then show ?thesis using assms PRef lt by (simp add: py_iter_def heap_get_def ref_addrs_iff)
    next
      case (PDict kvs)
      then have "ts = map (\<lambda>kv. PStr (fst kv)) kvs"
        using assms(1) PRef lt by (simp add: py_iter_def heap_get_def)
      then have "PRef a \<notin> set ts" by auto
      then show ?thesis using assms(2) by (simp add: ref_addrs_iff)
    qed
  next
    case False
    then show ?thesis using assms(1) PRef by (simp add: py_iter_def heap_get_def)
  qed
next
  case (PStr s)
  then have "ts = map (\<lambda>c. PStr [c]) s" using assms(1) by (simp add: py_iter_def)
  then have "PRef a \<notin> set ts" by auto
  then show ?thesis using assms(2) by (simp add: ref_addrs_iff)
qed (use assms(1) in \<open>simp_all add: py_iter_def\<close>)

text \<open>Frame, termination and freshness of the copy: no assumption on sharing.\<close>

lemma transform_antrophic_frame:
  assumes wf: "wf_heap h" and ok: "val_ok h tools"
  shows "\<exists>r h2. transform_tools_to_antrophic_format h tools = Some (r, h2)
           \<and> prefix h h2 \<and> wf_heap h2
           \<and> (\<forall>t. r = Inr t \<longrightarrow> val_ok h2 t \<and> (\<forall>x. reaches h2 t x \<longrightarrow> length h \<le> x))"
proof -
  have "copied h (length h) tools h []"
    using copy_inv_start [OF wf] ok ok by (rule deepcopy_copied)
  then obtain t h1 m where
    c: "deepcopy (length h) tools (h, []) = Some (t, h1, m)" "copy_inv h h1 m" "prefix h h1"
       "copy_rel m tools t"
    unfolding copied_def by blast
  note facts = copy_rel_facts [OF c(2) c(4) ok]
  have wf1: "wf_heap h1" using c(2) by (simp add: copy_inv_def)
  show ?thesis
  proof (cases "py_iter h1 t")
    case (Inl e)
    then have "transform_tools_to_antrophic_format h tools = Some (Inl e, h1)"
      using c(1) by (simp add: transform_tools_to_antrophic_format_def)
    then show ?thesis using c(3) wf1 by simp
  next
    case (Inr ts)
    obtain r' h2 where l: "antrophic_tools_loop h1 ts = (r', h2)"
      by (cases "antrophic_tools_loop h1 ts")
    note fr = antrophic_tools_loop_frame [OF l]
    have sh: "shrinks h1 h2" using fr by simp
    have wf2: "wf_heap h2" using wf1 sh by (rule wf_shrinks)
    have fresh: "length h \<le> a" if a: "a \<in> set (ref_addrs ts)" for a
    proof -
      obtain bt where bt: "t = PRef bt" "bt < length h1" "PRef a \<in> set (obj_vals (h1 ! bt))"
        using py_iter_refs [OF Inr a] by blast
      have "val_ok h1 (PRef a)" using wf1 bt(2,3) by (rule wf_heap_kid(1))
      then have "reaches h1 (PRef a) a" by (auto intro: reaches.here)
      then have "reaches h1 t a" using bt by (auto intro: reaches.step)
      then show ?thesis by (rule facts(3))
    qed
    have same: "h2 ! a = h1 ! a" if "a < length h" for a
      using fr fresh that by (metis not_less)
    have "length h2 = length h1" using sh by (simp add: shrinks_def)
    with c(3) have pre: "prefix h h2"
      by (rule prefix_same) (rule same)
    have out: "transform_tools_to_antrophic_format h tools =
        Some (case r' of Inl e \<Rightarrow> (Inl e, h2) | Inr u \<Rightarrow> (Inr t, h2))"
      using c(1) Inr l by (simp add: transform_tools_to_antrophic_format_def)
    have tok: "val_ok h2 t" using facts(1) sh by (simp add: shrinks_def)
    have new: "length h \<le> x" if "reaches h2 t x" for x
      using reaches_shrinks [OF sh that] by (rule facts(3))
    show ?thesis
      using out pre wf2 tok new by (cases r') auto
  qed
qed

lemma memo_inj:
  assumes "distinct (map snd m)" "(a, b) \<in> set m" "(a', b) \<in> set m"
  shows "a = a'"
proof -
  have "inj_on snd (set m)" using assms(1) by (simp add: distinct_map)
  moreover have "snd (a, b) = snd (a', b)" by simp
  ultimately have "(a, b) = (a', b)" using assms(2,3) by (rule inj_onD)
  then show ?thesis by simp
qed

lemma distinct_ref_addrs_tail: "distinct (ref_addrs (e # es)) \<Longrightarrow> distinct (ref_addrs es)"
  by (cases e) simp_all

lemma ref_nth_unique:
  "distinct (ref_addrs ts) \<Longrightarrow> i < length ts \<Longrightarrow> j < length ts \<Longrightarrow>
   ts ! i = PRef a \<Longrightarrow> ts ! j = PRef a \<Longrightarrow> i = j"
proof (induction ts arbitrary: i j)
  case Nil
  then show ?case by simp
next
  case (Cons e es)
  note tl = distinct_ref_addrs_tail [OF Cons.prems(1)]
  show ?case
  proof (cases i)
    case 0
    show ?thesis
    proof (cases j)
      case (Suc j')
      then have "PRef a \<in> set es" using Cons.prems(3,5) by (auto simp: in_set_conv_nth)
      then have "a \<in> set (ref_addrs es)" by (simp add: ref_addrs_iff)
      moreover have "e = PRef a" using 0 Cons.prems(4) by simp
      ultimately show ?thesis using Cons.prems(1) by simp
    qed (simp add: 0)
  next
    case i: (Suc i')
    show ?thesis
    proof (cases j)
      case 0
      have "PRef a \<in> set es" using i Cons.prems(2,4) by (auto simp: in_set_conv_nth)
      then have "a \<in> set (ref_addrs es)" by (simp add: ref_addrs_iff)
      moreover have "e = PRef a" using 0 Cons.prems(5) by simp
      ultimately show ?thesis using Cons.prems(1) by simp
    next
      case (Suc j')
      have "i' = j'" using tl Cons.prems(2-5) i Suc by (intro Cons.IH) simp_all
      then show ?thesis using i Suc by simp
    qed
  qed
qed

lemma copy_rel_ref:
  "copy_rel m v (PRef b) \<Longrightarrow> \<exists>a. v = PRef a \<and> (a, b) \<in> set m"
  by (cases v) (auto simp: copy_rel_def)

lemma distinct_copies:
  assumes "distinct (map snd m)"
  shows "list_all2 (copy_rel m) ts vs' \<Longrightarrow> distinct (ref_addrs ts) \<Longrightarrow>
         distinct (ref_addrs vs')"
proof (induction rule: list_all2_induct)
  case Nil
  then show ?case by simp
next
  case (Cons x xs y ys)
  note tl = distinct_ref_addrs_tail [OF Cons.prems]
  show ?case
  proof (cases y)
    case (PRef b)
    then obtain a where a: "x = PRef a" "(a, b) \<in> set m"
      using Cons.hyps(1) copy_rel_ref by blast
    have "b \<notin> set (ref_addrs ys)"
    proof
      assume "b \<in> set (ref_addrs ys)"
      then have "PRef b \<in> set ys" by (simp add: ref_addrs_iff)
      then obtain x' where x': "x' \<in> set xs" "copy_rel m x' (PRef b)"
        using list_all2_right [OF Cons.hyps(2)] by blast
      then obtain a' where a': "x' = PRef a'" "(a', b) \<in> set m" using copy_rel_ref by blast
      have "a' = a" using assms a'(2) a(2) by (rule memo_inj)
      then have "a \<in> set (ref_addrs xs)" using x'(1) a'(1) by (simp add: ref_addrs_iff)
      then show False using Cons.prems a(1) by simp
    qed
    then show ?thesis using Cons.IH tl PRef by simp
  qed (use Cons.IH tl in simp_all)
qed

lemma reaches_append:
  assumes "wf_heap h'" "val_ok h' v" "reaches (h' @ ext) v x"
  shows "reaches h' v x"
  using assms(1) assms(3) assms(2)
proof (rule reaches_frame)
  fix c assume "reaches h' v c"
  then have "c < length h'" by (rule reaches_in_range)
  then show "(h' @ ext) ! c = h' ! c" by (simp add: nth_append)
qed

lemma separate_copy:
  assumes inv: "copy_inv h h' m'" and parts: "list_all2 (copy_rel m') ts vs'"
    and sep: "separate h ts"
  shows "separate (h' @ ext) vs'"
proof -
  have dm: "distinct (map snd m')" and wf': "wf_heap h'" using inv by (simp_all add: copy_inv_def)
  have len: "length ts = length vs'" using parts by (rule list_all2_lengthD)
  have d: "distinct (ref_addrs vs')"
    using dm parts sep by (auto intro: distinct_copies simp: separate_def)
  have cross: "x = b"
    if b: "b \<in> set (ref_addrs vs')" and x: "x \<in> set (ref_addrs vs')"
      and r: "reaches (h' @ ext) (PRef b) x" for b x
  proof -
    have "PRef b \<in> set vs'" "PRef x \<in> set vs'" using b x by (simp_all add: ref_addrs_iff)
    then obtain i j where i: "i < length vs'" "vs' ! i = PRef b"
      and j: "j < length vs'" "vs' ! j = PRef x"
      unfolding in_set_conv_nth by blast
    have "copy_rel m' (ts ! i) (PRef b)" using list_all2_nthD2 [OF parts i(1)] i(2) by simp
    then obtain ai where ai: "ts ! i = PRef ai" "(ai, b) \<in> set m'" using copy_rel_ref by blast
    have "copy_rel m' (ts ! j) (PRef x)" using list_all2_nthD2 [OF parts j(1)] j(2) by simp
    then obtain aj where aj: "ts ! j = PRef aj" "(aj, x) \<in> set m'" using copy_rel_ref by blast
    have bok: "val_ok h' (PRef b)" using copy_invD(3) [OF inv ai(2)] by simp
    have "reaches h' (PRef b) x" using wf' bok r by (rule reaches_append)
    then obtain a' where a': "(a', x) \<in> set m'" "reaches h (PRef ai) a'"
      using copy_invD(5) [OF inv ai(2)] by blast
    have "a' = aj" using dm a'(1) aj(2) by (rule memo_inj)
    moreover have "PRef ai \<in> set ts" "PRef aj \<in> set ts"
      using ai(1) aj(1) i(1) j(1) len by (metis nth_mem)+
    then have "ai \<in> set (ref_addrs ts)" "aj \<in> set (ref_addrs ts)"
      by (simp_all add: ref_addrs_iff)
    ultimately have "aj = ai" using sep a'(2) unfolding separate_def by blast
    then have "i = j"
      using sep ai(1) aj(1) i(1) j(1) len
      by (intro ref_nth_unique [of ts i j ai]) (simp_all add: separate_def)
    then show ?thesis using i(2) j(2) by simp
  qed
  show ?thesis unfolding separate_def using d cross by blast
qed

lemma ref_addrs_strs: "ref_addrs (map (\<lambda>x. PStr (f x)) xs) = []"
  by (induction xs) simp_all

lemma py_iter_refs_list:
  assumes "py_iter g t = Inr ts" "ref_addrs ts \<noteq> []"
  shows "\<exists>bt. t = PRef bt \<and> bt < length g \<and> g ! bt = PList ts"
proof (cases t)
  case (PRef bt)
  show ?thesis
  proof (cases "bt < length g")
    case lt: True
    show ?thesis
    proof (cases "g ! bt")
      case (PList vs)
      then show ?thesis using assms PRef lt by (simp add: py_iter_def heap_get_def)
    next
      case (PDict kvs)
      then have "ts = map (\<lambda>kv. PStr (fst kv)) kvs"
        using assms(1) PRef lt by (simp add: py_iter_def heap_get_def)
      then have "ref_addrs ts = []" by (simp add: ref_addrs_strs)
      then show ?thesis using assms(2) by simp
    qed
  next
    case False
    then show ?thesis using assms(1) PRef by (simp add: py_iter_def heap_get_def)
  qed
next
  case (PStr s)
  then have "ts = map (\<lambda>c. PStr [c]) s" using assms(1) by (simp add: py_iter_def)
  then have "ref_addrs ts = []" by (simp add: ref_addrs_strs)
  then show ?thesis using assms(2) by simp
qed (use assms(1) in \<open>simp_all add: py_iter_def\<close>)

lemma separate_no_refs: "ref_addrs es = [] \<Longrightarrow> separate g es"
  by (simp add: separate_def)

lemma heap_same:
  assumes "shrinks g g'" "\<And>a. g' ! a = g ! a"
  shows "g' = g"
  using assms by (intro nth_equalityI) (simp_all add: shrinks_def)

text \<open>The case of a catalog that is a list object.\<close>

lemma transform_antrophic_list:
  assumes wf: "wf_heap h" and ra: "ra < length h" and obj: "h ! ra = PList ts"
    and sep: "separate h ts"
  shows "\<exists>r h2. transform_tools_to_antrophic_format h (PRef ra) = Some (r, h2)
           \<and> yields h2 r (transform_tools_to_antrophic_format_value (json_of h (PRef ra)))"
proof -
  obtain n where n: "length h = Suc n" "ra \<le> n" using ra by (cases "length h") auto
  have kb: "list_all (val_below n) ts"
    using wf_heap_kid(2) [OF wf ra _ n(2)] obj by (simp add: list_all_iff)
  have ko: "list_all (val_ok h) ts"
    using wf_heap_kid(1) [OF wf ra] obj by (simp add: list_all_iff)
  have "copied_all h n ts h []"
    using deepcopy_copied copy_inv_start [OF wf] kb ko by (rule copied_all_from_copied)
  then obtain vs' h' m' where
    c: "deepcopy_all n ts (h, []) = Some (vs', h', m')" "copy_inv h h' m'" "prefix h h'"
       "list_all2 (copy_rel m') ts vs'"
    unfolding copied_all_def by blast
  let ?t = "PRef (length h')" and ?h1 = "h' @ [PList vs']"
  have dc: "deepcopy (length h) (PRef ra) (h, []) = Some (?t, ?h1, (ra, length h') # m')"
    using n ra obj c(1) by (simp add: heap_get_def)
  have wf': "wf_heap h'" using c(2) by (simp add: copy_inv_def)
  have pair: "val_ok h' v' \<and> json_of h' v' = json_of h v"
    if "v \<in> set ts" "copy_rel m' v v'" for v v'
    using copy_rel_facts(1,2) [OF c(2) that(2)] ko that(1) by (simp add: list_all_iff)
  have new_ok: "val_ok h' v'" if vin: "v' \<in> set vs'" for v'
    using list_all2_right [OF c(4) vin] pair by blast
  have wf1: "wf_heap ?h1" using wf' new_ok by (simp add: wf_heap_snoc list_all_iff)
  have "val_ok ?h1 v'" if vin: "v' \<in> set vs'" for v'
    using new_ok [OF vin] by (rule val_below_mono) simp
  then have ok1: "list_all (val_ok ?h1) vs'"
    by (simp add: list_all_iff)
  have it: "py_iter ?h1 ?t = Inr vs'" by (simp add: py_iter_def heap_get_def)
  have sep1: "separate ?h1 vs'" using c(2) c(4) sep by (rule separate_copy)
  obtain r' h2 where l: "antrophic_tools_loop ?h1 vs' = (r', h2)"
    by (cases "antrophic_tools_loop ?h1 vs'")
  note sim = antrophic_tools_loop_sim [OF wf1 ok1 sep1 l]
  have sh: "shrinks ?h1 h2" using sim by simp
  have wf2: "wf_heap h2" using wf1 sh by (rule wf_shrinks)
  have len2: "length h2 = Suc (length h')" using sh by (simp add: shrinks_def)
  have "list_all2 (\<lambda>v v'. json_of h v = json_of ?h1 v') ts vs'"
    using c(4)
  proof (rule list.rel_mono_strong)
    fix v v' assume "v \<in> set ts" "v' \<in> set vs'" "copy_rel m' v v'"
    then show "json_of h v = json_of ?h1 v'" using pair wf' by (simp add: json_of_append)
  qed
  then have maps: "map (json_of ?h1) vs' = map (json_of h) ts"
    by (rule list_all2_map_eq [symmetric])
  have val: "transform_tools_to_antrophic_format_value (json_of h (PRef ra)) =
      bind_exn (map_exn antrophic_tool (map (json_of h) ts)) (\<lambda>rs. Inr (JList rs))"
    using wf ra obj by (simp add: json_of_ref transform_tools_to_antrophic_format_value_def)
  have out: "transform_tools_to_antrophic_format h (PRef ra) =
      Some (case r' of Inl e \<Rightarrow> (Inl e, h2) | Inr u \<Rightarrow> (Inr ?t, h2))"
    using dc it l by (simp add: transform_tools_to_antrophic_format_def)
  have top: "length h' \<notin> set (ref_addrs vs')"
    using new_ok [of "PRef (length h')"] by (auto simp: ref_addrs_iff)
  then have top_obj: "h2 ! length h' = PList vs'" using sim by simp
  have json2: "json_of h2 ?t = JList (map (json_of h2) vs')"
    using wf2 len2 top_obj by (simp add: json_of_ref)
  have reify2: "py_reify h2 ?t = Some (json_of h2 ?t)"
    using wf2 len2 by (intro py_reify_Some) simp_all
  show ?thesis
  proof (cases "map_exn antrophic_tool (map (json_of h) ts)")
    case (Inl err)
    then have "r' = Inl err" using sim maps by simp
    then show ?thesis using out val Inl by (simp add: yields_def bind_exn_def)
  next
    case (Inr js)
    then have "r' = Inr ()" "map (json_of h2) vs' = js" using sim maps by simp_all
    then show ?thesis
      using out val Inr json2 reify2 len2 by (simp add: yields_def bind_exn_def)
  qed
qed

text \<open>Any other catalog value: the loop meets no object.\<close>

lemma transform_antrophic_other:
  assumes wf: "wf_heap h" and ok: "val_ok h tools"
    and other: "\<And>ra ts. tools = PRef ra \<Longrightarrow> h ! ra \<noteq> PList ts"
  shows "\<exists>r h2. transform_tools_to_antrophic_format h tools = Some (r, h2)
           \<and> yields h2 r (transform_tools_to_antrophic_format_value (json_of h tools))"
proof -
  have "copied h (length h) tools h []"
    using copy_inv_start [OF wf] ok ok by (rule deepcopy_copied)
  then obtain t h1 m where
    c: "deepcopy (length h) tools (h, []) = Some (t, h1, m)" "copy_inv h h1 m" "prefix h h1"
       "copy_rel m tools t"
    unfolding copied_def by blast
  note facts = copy_rel_facts(1,2) [OF c(2) c(4) ok]
  have wf1: "wf_heap h1" using c(2) by (simp add: copy_inv_def)
  let ?j = "json_of h tools"
  have nolist: "?j \<noteq> JList js" for js
  proof (cases tools)
    case (PRef ra)
    then have lt: "ra < length h" using ok by simp
    show ?thesis
    proof (cases "h ! ra")
      case (PList vs)
      then show ?thesis using other [OF PRef, of vs] by simp
    next
      case (PDict kvs)
      then show ?thesis using PRef wf lt by (simp add: json_of_ref)
    qed
  qed simp_all
  have val: "transform_tools_to_antrophic_format_value ?j =
      bind_exn (json_iter ?j) (\<lambda>ts. bind_exn (map_exn antrophic_tool ts) (\<lambda>rs. Inr ?j))"
  proof (cases ?j)
    case (JList js)
    then show ?thesis using nolist [of js] by simp
  qed (simp_all add: transform_tools_to_antrophic_format_value_def)
  note it = py_iter_sim [OF wf1 facts(1)]
  show ?thesis
  proof (cases "py_iter h1 t")
    case (Inl e)
    then have "transform_tools_to_antrophic_format h tools = Some (Inl e, h1)"
      using c(1) by (simp add: transform_tools_to_antrophic_format_def)
    moreover have "json_iter ?j = Inl e" using it Inl facts(2) by simp
    ultimately show ?thesis using val by (simp add: yields_def bind_exn_def)
  next
    case (Inr ts)
    have ji: "json_iter ?j = Inr (map (json_of h1) ts)" and tsok: "list_all (val_ok h1) ts"
      using it Inr facts(2) by simp_all
    have norefs: "ref_addrs ts = []"
    proof (rule ccontr)
      assume "ref_addrs ts \<noteq> []"
      then obtain bt where bt: "t = PRef bt" "bt < length h1" "h1 ! bt = PList ts"
        using py_iter_refs_list [OF Inr] by blast
      then have "json_of h1 t = JList (map (json_of h1) ts)" using wf1 by (simp add: json_of_ref)
      then show False using nolist facts(2) by simp
    qed
    obtain r' h2 where l: "antrophic_tools_loop h1 ts = (r', h2)"
      by (cases "antrophic_tools_loop h1 ts")
    note sim = antrophic_tools_loop_sim [OF wf1 tsok separate_no_refs [OF norefs] l]
    have same: "h2 = h1" using sim norefs by (intro heap_same) simp_all
    have out: "transform_tools_to_antrophic_format h tools =
        Some (case r' of Inl e \<Rightarrow> (Inl e, h1) | Inr u \<Rightarrow> (Inr t, h1))"
      using c(1) Inr l same by (simp add: transform_tools_to_antrophic_format_def)
    have reify: "py_reify h1 t = Some ?j"
      using py_reify_Some [OF wf1 facts(1)] facts(2) by simp
    show ?thesis
    proof (cases "map_exn antrophic_tool (map (json_of h1) ts)")
      case (Inl err)
      then have "r' = Inl err" using sim by simp
      then show ?thesis using out val ji Inl by (simp add: yields_def bind_exn_def)
    next
      case js: (Inr js)
      then have "r' = Inr ()" using sim by simp
      then show ?thesis using out val ji js reify facts(1) by (simp add: yields_def bind_exn_def)
    qed
  qed
qed

lemma transform_antrophic_sim:
  assumes "wf_heap h" "val_ok h tools" "separate_tools h tools"
  shows "\<exists>r h2. transform_tools_to_antrophic_format h tools = Some (r, h2)
           \<and> yields h2 r (transform_tools_to_antrophic_format_value (json_of h tools))"
proof (cases "\<exists>ra ts. tools = PRef ra \<and> h ! ra = PList ts")
  case True
  then obtain ra ts where t: "tools = PRef ra" "h ! ra = PList ts" by blast
  have ra: "ra < length h" using assms(2) t by simp
  have "separate h ts" using assms(3) t ra by (simp add: separate_tools_def py_iter_def heap_get_def)
  then show ?thesis using transform_antrophic_list [OF assms(1) ra t(2)] t by simp
next
  case False
  then show ?thesis using assms(1,2) by (intro transform_antrophic_other) auto
qed

lemma prefix_take: "prefix h g \<Longrightarrow> take (length h) g = h"
  by (auto simp: prefix_def)

lemma py_iter_prefix:
  assumes "prefix h g" "val_ok h tools"
  shows "py_iter g tools = py_iter h tools"
proof (cases tools)
  case (PRef a)
  then have "a < length h" using assms(2) by simp
  then show ?thesis using PRef prefix_nth [OF assms(1)] prefix_length [OF assms(1)]
    by (simp add: py_iter_def heap_get_def)
qed (simp_all add: py_iter_def)

lemma reaches_prefix:
  assumes "wf_heap h" "prefix h g" "val_ok h v" "reaches g v x"
  shows "reaches h v x"
  using assms(1) assms(4) assms(3)
proof (rule reaches_frame)
  fix c assume "reaches h v c"
  then have "c < length h" by (rule reaches_in_range)
  then show "g ! c = h ! c" using assms(2) by (rule prefix_nth [rotated])
qed

lemma py_iter_val_ok:
  assumes "wf_heap h" "val_ok h tools" "py_iter h tools = Inr ts"
  shows "list_all (val_ok h) ts"
  using py_iter_sim [OF assms(1,2)] assms(3) by simp

lemma separate_tools_prefix:
  assumes wf: "wf_heap h" and pre: "prefix h g" and ok: "val_ok h tools"
    and sep: "separate_tools h tools"
  shows "separate_tools g tools"
proof (cases "py_iter h tools")
  case (Inl e)
  then show ?thesis using py_iter_prefix [OF pre ok] by (simp add: separate_tools_def)
next
  case (Inr ts)
  have oks: "list_all (val_ok h) ts" using wf ok Inr by (rule py_iter_val_ok)
  have s: "separate h ts" using sep Inr by (simp add: separate_tools_def)
  have "x = a" if a: "a \<in> set (ref_addrs ts)" and x: "x \<in> set (ref_addrs ts)"
    and r: "reaches g (PRef a) x" for a x
  proof -
    have "PRef a \<in> set ts" using a by (simp add: ref_addrs_iff)
    then have "val_ok h (PRef a)" using oks unfolding list_all_iff by blast
    then have "reaches h (PRef a) x" using wf pre r by (intro reaches_prefix [of h g])
    then show ?thesis using s a x unfolding separate_def by blast
  qed
  then have "separate g ts" using s unfolding separate_def by blast
  then show ?thesis using py_iter_prefix [OF pre ok] Inr by (simp add: separate_tools_def)
qed

lemma yields_prefix:
  assumes "wf_heap g" "wf_heap g'" "prefix g g'" "yields g r e"
  shows "yields g' r e"
proof (cases e)
  case (Inl err)
  then show ?thesis using assms(4) by (simp add: yields_def)
next
  case (Inr j)
  then obtain t where t: "r = Inr t" "val_ok g t" "py_reify g t = Some j"
    using assms(4) by (cases r) (simp_all add: yields_def)
  have "json_of g t = j" using t(3) by (simp add: json_of_def)
  then have "json_of g' t = j" using json_of_prefix [OF assms(1) t(2) assms(3)] by simp
  moreover have ok': "val_ok g' t" using assms(3) t(2) by (rule prefix_val_ok)
  ultimately have "py_reify g' t = Some j" using py_reify_Some [OF assms(2) ok'] by simp
  then show ?thesis using Inr t(1) ok' by (simp add: yields_def)
qed

lemma transform_openai_yields:
  assumes "wf_heap h" "val_ok h tools" "transform_tools_to_openai_format h tools = (r, h')"
  shows "prefix h h'" and "wf_heap h'"
    and "yields h' r (transform_tools_to_openai_format_value (json_of h tools))"
proof -
  show "prefix h h'" using assms(3) by (rule transform_openai_frame)
  note sim = transform_openai_sim [OF assms]
  show wf': "wf_heap h'" using sim by simp
  show "yields h' r (transform_tools_to_openai_format_value (json_of h tools))"
  proof (cases "transform_tools_to_openai_format_value (json_of h tools)")
    case (Inl e)
    then show ?thesis using sim by (simp add: yields_def)
  next
    case (Inr j)
    then obtain t where "r = Inr t" "val_ok h' t" "json_of h' t = j" using sim by auto
    then show ?thesis using Inr py_reify_Some [OF wf'] by (simp add: yields_def)
  qed
qed

text \<open>The Anthropic transform on a store that has grown since the catalog was loaded.\<close>

lemma transform_antrophic_later:
  assumes wf: "wf_heap h" and ok: "val_ok h tools" and wfg: "wf_heap g" and pre: "prefix h g"
  shows "\<exists>r g'. transform_tools_to_antrophic_format g tools = Some (r, g')
           \<and> prefix g g' \<and> wf_heap g'
           \<and> (\<forall>t x. r = Inr t \<longrightarrow> reaches g' t x \<longrightarrow> length g \<le> x)
           \<and> (separate_tools h tools \<longrightarrow>
                yields g' r (transform_tools_to_antrophic_format_value (json_of h tools)))"
proof -
  have okg: "val_ok g tools" using pre ok by (rule prefix_val_ok)
  obtain r g' where f: "transform_tools_to_antrophic_format g tools = Some (r, g')"
    "prefix g g'" "wf_heap g'"
    "\<And>t x. r = Inr t \<Longrightarrow> reaches g' t x \<Longrightarrow> length g \<le> x"
    using transform_antrophic_frame [OF wfg okg] by blast
  have "yields g' r (transform_tools_to_antrophic_format_value (json_of h tools))"
    if sep: "separate_tools h tools"
  proof -
    have "separate_tools g tools" using wf pre ok sep by (rule separate_tools_prefix)
    then obtain r' g'' where "transform_tools_to_antrophic_format g tools = Some (r', g'')"
      "yields g'' r' (transform_tools_to_antrophic_format_value (json_of g tools))"
      using transform_antrophic_sim [OF wfg okg] by blast
    then show ?thesis using f(1) json_of_prefix [OF wf ok pre] by simp
  qed
  then show ?thesis using f by blast
qed

lemma yields_empty_openai:
  assumes "wf_heap h" "a < length h" "h ! a = PList []"
  shows "transform_tools_to_openai_format_value (json_of h (PRef a)) = Inr (JList [])"
    and "transform_tools_to_antrophic_format_value (json_of h (PRef a)) = Inr (JList [])"
  using assms
  by (simp_all add: json_of_ref transform_tools_to_openai_format_value_def
        transform_tools_to_antrophic_format_value_def json_iter_def bind_exn_def)

text \<open>
  Claim C9, as amended. In a well-founded store, for a catalog value of the store:
  both transforms return, and every object that was in the store before the call is in
  it unchanged after the call, so the catalog and each tool's \<^verbatim>\<open>inputSchema\<close> are
  untouched. The result of \<^verbatim>\<open>transform_tools_to_openai_format\<close> reads as the JSON
  value that the transform gives on the JSON reading of the catalog (or raises the same
  exception). Every object of the result of \<^verbatim>\<open>transform_tools_to_antrophic_format\<close>
  is new, an independent deep copy; and when the tools of the catalog are separate
  objects, its result reads as the JSON value that the transform gives on the JSON
  reading of the catalog. The same holds when the Anthropic transform runs after the
  OpenAI transform, or a second time, on the same catalog, and the earlier result still
  reads the same. On an empty catalog both return an empty list.
\<close>

theorem schema_transforms_pure:
  assumes "wf_heap h" and "val_ok h tools"
  shows "\<exists>r1 h1 r2 h2 r3 h3 r4 h4.
      transform_tools_to_openai_format h tools = (r1, h1)
    \<and> take (length h) h1 = h
    \<and> yields h1 r1 (transform_tools_to_openai_format_value (json_of h tools))
    \<and> transform_tools_to_antrophic_format h tools = Some (r2, h2)
    \<and> take (length h) h2 = h
    \<and> (\<forall>t x. r2 = Inr t \<longrightarrow> reaches h2 t x \<longrightarrow> length h \<le> x)
    \<and> (separate_tools h tools \<longrightarrow>
         yields h2 r2 (transform_tools_to_antrophic_format_value (json_of h tools)))
    \<and> transform_tools_to_antrophic_format h1 tools = Some (r3, h3)
    \<and> take (length h1) h3 = h1
    \<and> yields h3 r1 (transform_tools_to_openai_format_value (json_of h tools))
    \<and> (\<forall>t x. r3 = Inr t \<longrightarrow> reaches h3 t x \<longrightarrow> length h1 \<le> x)
    \<and> (separate_tools h tools \<longrightarrow>
         yields h3 r3 (transform_tools_to_antrophic_format_value (json_of h tools)))
    \<and> transform_tools_to_antrophic_format h2 tools = Some (r4, h4)
    \<and> take (length h2) h4 = h2
    \<and> (\<forall>t x. r4 = Inr t \<longrightarrow> reaches h4 t x \<longrightarrow> length h2 \<le> x)
    \<and> (separate_tools h tools \<longrightarrow>
         yields h4 r2 (transform_tools_to_antrophic_format_value (json_of h tools))
         \<and> yields h4 r4 (transform_tools_to_antrophic_format_value (json_of h tools)))
    \<and> (\<forall>a. tools = PRef a \<and> h ! a = PList [] \<longrightarrow>
         yields h1 r1 (Inr (JList [])) \<and> yields h2 r2 (Inr (JList [])))"
proof -
  obtain r1 h1 where o: "transform_tools_to_openai_format h tools = (r1, h1)"
    by (cases "transform_tools_to_openai_format h tools")
  note o1 = transform_openai_yields [OF assms o]
  obtain r2 h2 where a2: "transform_tools_to_antrophic_format h tools = Some (r2, h2)"
    "prefix h h2" "wf_heap h2"
    "\<forall>t x. r2 = Inr t \<longrightarrow> reaches h2 t x \<longrightarrow> length h \<le> x"
    "separate_tools h tools \<longrightarrow>
       yields h2 r2 (transform_tools_to_antrophic_format_value (json_of h tools))"
    using transform_antrophic_later [OF assms assms(1) prefix_order.refl] by blast
  obtain r3 h3 where a3: "transform_tools_to_antrophic_format h1 tools = Some (r3, h3)"
    "prefix h1 h3" "wf_heap h3"
    "\<forall>t x. r3 = Inr t \<longrightarrow> reaches h3 t x \<longrightarrow> length h1 \<le> x"
    "separate_tools h tools \<longrightarrow>
       yields h3 r3 (transform_tools_to_antrophic_format_value (json_of h tools))"
    using transform_antrophic_later [OF assms o1(2) o1(1)] by blast
  obtain r4 h4 where a4: "transform_tools_to_antrophic_format h2 tools = Some (r4, h4)"
    "prefix h2 h4" "wf_heap h4"
    "\<forall>t x. r4 = Inr t \<longrightarrow> reaches h4 t x \<longrightarrow> length h2 \<le> x"
    "separate_tools h tools \<longrightarrow>
       yields h4 r4 (transform_tools_to_antrophic_format_value (json_of h tools))"
    using transform_antrophic_later [OF assms a2(3) a2(2)] by blast
  have r1_later: "yields h3 r1 (transform_tools_to_openai_format_value (json_of h tools))"
    using o1(2) a3(3) a3(2) o1(3) by (rule yields_prefix)
  have r2_later: "separate_tools h tools \<longrightarrow>
      yields h4 r2 (transform_tools_to_antrophic_format_value (json_of h tools))"
    using a2(5) yields_prefix [OF a2(3) a4(3) a4(2)] by blast
  have empty: "\<forall>a. tools = PRef a \<and> h ! a = PList [] \<longrightarrow>
      yields h1 r1 (Inr (JList [])) \<and> yields h2 r2 (Inr (JList []))"
  proof (intro allI impI)
    fix a assume e: "tools = PRef a \<and> h ! a = PList []"
    then have lt: "a < length h" using assms(2) by simp
    have "separate_tools h tools"
      using e lt by (simp add: separate_tools_def py_iter_def heap_get_def separate_def)
    then show "yields h1 r1 (Inr (JList [])) \<and> yields h2 r2 (Inr (JList []))"
      using o1(3) a2(5) yields_empty_openai [OF assms(1) lt] e by simp
  qed
  show ?thesis
    using o prefix_take [OF o1(1)] o1(3) a2(1) prefix_take [OF a2(2)] a2(4) a2(5)
      a3(1) prefix_take [OF a3(2)] r1_later a3(4) a3(5)
      a4(1) prefix_take [OF a4(2)] a4(4) r2_later a4(5) empty
    by blast
qed

lemmas store_eval = transform_tools_to_openai_format_def transform_tools_to_antrophic_format_def
  openai_tool_obj_def py_iter_def py_subscript_def py_pop_def py_setitem_def heap_get_def
  alloc_def catalog_def py_reify_def

lemma catalog_openai:
  "transform_tools_to_openai_format catalog (PRef 4) =
     (Inr (PRef 9),
      catalog @
      [PDict [(''name'', PStr ''search-actors''), (''description'', PStr ''Search''),
              (''parameters'', PRef 0)],
       PDict [(''type'', PStr ''function''), (''function'', PRef 5)],
       PDict [(''name'', PStr ''fetch-actor-details''), (''description'', PStr ''Fetch''),
              (''parameters'', PRef 2)],
       PDict [(''type'', PStr ''function''), (''function'', PRef 7)],
       PList [PRef 6, PRef 8]])"
  by (simp add: store_eval)

lemma catalog_antrophic:
  "transform_tools_to_antrophic_format catalog (PRef 4) =
     Some (Inr (PRef 9),
      catalog @
      [PDict [(''type'', PStr ''object'')],
       PDict [(''name'', PStr ''search-actors''), (''description'', PStr ''Search''),
              (''input_schema'', PRef 5)],
       PDict [(''type'', PStr ''object''), (''required'', PStr ''actor'')],
       PDict [(''name'', PStr ''fetch-actor-details''), (''description'', PStr ''Fetch''),
              (''input_schema'', PRef 7)],
       PList [PRef 6, PRef 8]])"
  by code_simp

lemma catalog_wf: "wf_heap catalog"
  by (simp add: wf_heap_def catalog_def)

lemma catalog_separate: "separate_tools catalog (PRef 4)"
proof -
  have a: "\<not> reaches catalog (PRef 1) 3"
    using reaches_le [OF catalog_wf, of "PRef 1" 3] by auto
  have "\<not> reaches catalog (PRef 2) 1"
    using reaches_cases_ref [of catalog 2 1] by (auto simp: catalog_def dest: reaches_ref)
  then have b: "\<not> reaches catalog (PRef 3) 1"
    using reaches_cases_ref [of catalog 3 1] by (auto simp: catalog_def dest: reaches_ref)
  show ?thesis
    using a b by (auto simp: separate_tools_def separate_def py_iter_def heap_get_def catalog_def)
qed

theorem schema_transforms_pure_witness:
  "wf_heap catalog \<and> val_ok catalog (PRef 4) \<and> separate_tools catalog (PRef 4)
   \<and> fst (transform_tools_to_openai_format catalog (PRef 4)) = Inr (PRef 9)
   \<and> take (length catalog) (snd (transform_tools_to_openai_format catalog (PRef 4))) = catalog
   \<and> py_reify (snd (transform_tools_to_openai_format catalog (PRef 4))) (PRef 9) =
       Some (JList
         [JDict [(''type'', JStr ''function''),
                 (''function'', JDict [(''name'', JStr ''search-actors''),
                                       (''description'', JStr ''Search''),
                                       (''parameters'', JDict [(''type'', JStr ''object'')])])],
          JDict [(''type'', JStr ''function''),
                 (''function'', JDict [(''name'', JStr ''fetch-actor-details''),
                                       (''description'', JStr ''Fetch''),
                                       (''parameters'',
                                        JDict [(''type'', JStr ''object''),
                                               (''required'', JStr ''actor'')])])]])
   \<and> map_option fst (transform_tools_to_antrophic_format catalog (PRef 4)) = Some (Inr (PRef 9))
   \<and> map_option (\<lambda>r. take (length catalog) (snd r))
        (transform_tools_to_antrophic_format catalog (PRef 4)) = Some catalog
   \<and> map_option (\<lambda>r. py_reify (snd r) (PRef 9))
        (transform_tools_to_antrophic_format catalog (PRef 4)) =
       Some (Some (JList
         [JDict [(''name'', JStr ''search-actors''), (''description'', JStr ''Search''),
                 (''input_schema'', JDict [(''type'', JStr ''object'')])],
          JDict [(''name'', JStr ''fetch-actor-details''), (''description'', JStr ''Fetch''),
                 (''input_schema'',
                  JDict [(''type'', JStr ''object''), (''required'', JStr ''actor'')])]]))"
proof -
  have ok: "val_ok catalog (PRef 4)" by (simp add: catalog_def)
  obtain r1 h1 r2 h2 where
    o: "transform_tools_to_openai_format catalog (PRef 4) = (r1, h1)"
       "take (length catalog) h1 = catalog" and
    a: "transform_tools_to_antrophic_format catalog (PRef 4) = Some (r2, h2)"
       "take (length catalog) h2 = catalog"
    using schema_transforms_pure [OF catalog_wf ok] by blast
  have frames:
    "take (length catalog) (snd (transform_tools_to_openai_format catalog (PRef 4))) = catalog"
    "map_option (\<lambda>r. take (length catalog) (snd r))
        (transform_tools_to_antrophic_format catalog (PRef 4)) = Some catalog"
    using o a by simp_all
  have results:
    "fst (transform_tools_to_openai_format catalog (PRef 4)) = Inr (PRef 9)"
    "map_option fst (transform_tools_to_antrophic_format catalog (PRef 4)) = Some (Inr (PRef 9))"
    by (simp_all add: catalog_openai catalog_antrophic)
  have read_openai:
    "py_reify (snd (transform_tools_to_openai_format catalog (PRef 4))) (PRef 9) =
       Some (JList
         [JDict [(''type'', JStr ''function''),
                 (''function'', JDict [(''name'', JStr ''search-actors''),
                                       (''description'', JStr ''Search''),
                                       (''parameters'', JDict [(''type'', JStr ''object'')])])],
          JDict [(''type'', JStr ''function''),
                 (''function'', JDict [(''name'', JStr ''fetch-actor-details''),
                                       (''description'', JStr ''Fetch''),
                                       (''parameters'',
                                        JDict [(''type'', JStr ''object''),
                                               (''required'', JStr ''actor'')])])]])"
    by code_simp
  have read_antrophic:
    "map_option (\<lambda>r. py_reify (snd r) (PRef 9))
        (transform_tools_to_antrophic_format catalog (PRef 4)) =
       Some (Some (JList
         [JDict [(''name'', JStr ''search-actors''), (''description'', JStr ''Search''),
                 (''input_schema'', JDict [(''type'', JStr ''object'')])],
          JDict [(''name'', JStr ''fetch-actor-details''), (''description'', JStr ''Fetch''),
                 (''input_schema'',
                  JDict [(''type'', JStr ''object''), (''required'', JStr ''actor'')])]]))"
    by code_simp
  show ?thesis
    using catalog_wf ok catalog_separate frames results read_openai read_antrophic by blast
qed

text \<open>
  The result of the OpenAI transform on the catalog of two tools contains the object at
  address 0, which is the \<^verbatim>\<open>inputSchema\<close> of the first tool of the catalog: the
  transform has reused the object of the catalog, it has not worked on a copy.
\<close>

theorem openai_schema_shares_input_counterexample:
  "fst (transform_tools_to_openai_format catalog (PRef 4)) = Inr (PRef 9)
   \<and> reaches (snd (transform_tools_to_openai_format catalog (PRef 4))) (PRef 9) 0
   \<and> reaches catalog (PRef 4) 0
   \<and> py_subscript catalog (PRef 1) ''inputSchema'' = Inr (PRef 0)
   \<and> py_subscript (snd (transform_tools_to_openai_format catalog (PRef 4))) (PRef 5)
        ''parameters'' = Inr (PRef 0)"
proof -
  let ?h = "snd (transform_tools_to_openai_format catalog (PRef 4))"
  let ?H = "catalog @
      [PDict [(''name'', PStr ''search-actors''), (''description'', PStr ''Search''),
              (''parameters'', PRef 0)],
       PDict [(''type'', PStr ''function''), (''function'', PRef 5)],
       PDict [(''name'', PStr ''fetch-actor-details''), (''description'', PStr ''Fetch''),
              (''parameters'', PRef 2)],
       PDict [(''type'', PStr ''function''), (''function'', PRef 7)],
       PList [PRef 6, PRef 8]]"
  have h: "?h = ?H"
    by (simp add: catalog_openai)
  have r0: "reaches ?H (PRef 0) 0"
    by (rule reaches.here) (simp add: catalog_def)
  have r5: "reaches ?H (PRef 5) 0"
    by (rule reaches.step [OF _ _ r0]) (simp_all add: catalog_def)
  have r6: "reaches ?H (PRef 6) 0"
    by (rule reaches.step [OF _ _ r5]) (simp_all add: catalog_def)
  have r9: "reaches ?H (PRef 9) 0"
    by (rule reaches.step [OF _ _ r6]) (simp_all add: catalog_def)
  have c0: "reaches catalog (PRef 0) 0"
    by (rule reaches.here) (simp add: catalog_def)
  have c1: "reaches catalog (PRef 1) 0"
    by (rule reaches.step [OF _ _ c0]) (simp_all add: catalog_def)
  have c4: "reaches catalog (PRef 4) 0"
    by (rule reaches.step [OF _ _ c1]) (simp_all add: catalog_def)
  have s1: "py_subscript catalog (PRef 1) ''inputSchema'' = Inr (PRef 0)"
    by (simp add: py_subscript_def heap_get_def catalog_def)
  have s5: "py_subscript ?H (PRef 5) ''parameters'' = Inr (PRef 0)"
    by (simp add: py_subscript_def heap_get_def catalog_def)
  show ?thesis
    unfolding h using catalog_openai r9 c4 s1 s5 by simp
qed

end
